theory Spec2Isabelle
  imports Main "HOL-Library.Sublist"
begin

section \<open>Strings and paths\<close>

text \<open>
  Python strings are modelled as \<^typ>\<open>string\<close>, each \<^typ>\<open>char\<close> standing for the code
  point of the same number (0 to 255). The path functions are those of \<^verbatim>\<open>posixpath\<close>, so
  \<^verbatim>\<open>os.sep\<close> is the slash.
\<close>

definition sep :: char where
  "sep = CHR ''/''"

text \<open>\<^verbatim>\<open>str.lower\<close> on the code points below 256: the capital letters of ASCII and of
  Latin-1 (U+00C0 to U+00DE without the multiplication sign U+00D7) move up by 32.\<close>

definition lower_char :: "char \<Rightarrow> char" where
  "lower_char c =
     (let n = (of_char c :: nat)
      in if (65 \<le> n \<and> n \<le> 90) \<or> (192 \<le> n \<and> n \<le> 222 \<and> n \<noteq> 215)
         then char_of (n + 32) else c)"

definition lower :: "string \<Rightarrow> string" where
  "lower s = map lower_char s"

text \<open>\<^verbatim>\<open>str.isspace\<close> for one character: TAB, LF, VT, FF, CR, the four separators
  U+001C to U+001F, the space, NEL (U+0085) and the no-break space (U+00A0).\<close>

definition isspace :: "char \<Rightarrow> bool" where
  "isspace c =
     (let n = (of_char c :: nat)
      in (9 \<le> n \<and> n \<le> 13) \<or> (28 \<le> n \<and> n \<le> 32) \<or> n = 133 \<or> n = 160)"

text \<open>\<^verbatim>\<open>str.strip()\<close>: leading and trailing whitespace removed.\<close>

definition strip :: "string \<Rightarrow> string" where
  "strip s = rev (dropWhile isspace (rev (dropWhile isspace s)))"

text \<open>\<^verbatim>\<open>s.startswith(p)\<close> and \<^verbatim>\<open>s.endswith(p)\<close>.\<close>

definition startswith :: "string \<Rightarrow> string \<Rightarrow> bool" where
  "startswith s p = prefix p s"

definition endswith :: "string \<Rightarrow> string \<Rightarrow> bool" where
  "endswith s p = suffix p s"

text \<open>\<^verbatim>\<open>s.split(os.sep)\<close>: the segments between separators, left to right. The first
  argument of \<open>split_from\<close> is the segment read so far; the empty string gives one empty
  segment.\<close>

fun split_from :: "string \<Rightarrow> string \<Rightarrow> string list" where
  "split_from cur [] = [cur]"
| "split_from cur (c # cs) =
     (if c = sep then cur # split_from [] cs else split_from (cur @ [c]) cs)"

definition split_sep :: "string \<Rightarrow> string list" where
  "split_sep s = split_from [] s"

text \<open>\<^verbatim>\<open>os.path.basename(p)\<close> is \<^verbatim>\<open>p[p.rfind('/') + 1:]\<close>: what follows the last
  separator, the whole of \<open>p\<close> when it has none.\<close>

definition basename :: "string \<Rightarrow> string" where
  "basename p = rev (takeWhile (\<lambda>c. c \<noteq> sep) (rev p))"

text \<open>\<^verbatim>\<open>os.path.join(a, b)\<close> for two arguments.\<close>

definition path_join :: "string \<Rightarrow> string \<Rightarrow> string" where
  "path_join a b =
     (if startswith b [sep] then b
      else if a = [] \<or> endswith a [sep] then a @ b
      else a @ [sep] @ b)"

section \<open>Configuration\<close>

definition MAX_LINES :: nat where
  "MAX_LINES = 1000"

definition MAX_BYTES :: nat where
  "MAX_BYTES = 100 * 1024"

definition EXCLUDED_EXTENSIONS :: "string set" where
  "EXCLUDED_EXTENSIONS =
     {''.pyc'', ''.tar'', ''.7z'', ''.zip'', ''.mp4'', ''.mp3'', ''.pdf'', ''.jpg'', ''.png'',
      ''tar.lz''}"

definition EXCLUDED_FILES :: "string set" where
  "EXCLUDED_FILES = {''license'', ''license.md'', ''license.txt'', ''.gitignore''}"

definition MAX_DEPTH :: nat where
  "MAX_DEPTH = 2"

section \<open>Ignore rules and depth\<close>

text \<open>\<^verbatim>\<open>is_ignored(file_path, ignored_patterns)\<close>: the three tests in the order of the
  source. Note that \<^verbatim>\<open>.lower()\<close> is applied to the deny-list entry, not to the path.\<close>

definition is_ignored :: "string \<Rightarrow> string list \<Rightarrow> bool" where
  "is_ignored file_path ignored_patterns =
     (if \<exists>ext \<in> EXCLUDED_EXTENSIONS. endswith file_path (lower ext) then True
      else if lower (basename file_path) \<in> EXCLUDED_FILES then True
      else \<exists>pattern \<in> set ignored_patterns.
             startswith file_path pattern \<or> pattern \<in> set (split_sep file_path))"

definition get_depth :: "string \<Rightarrow> nat" where
  "get_depth relative_path = length (split_sep relative_path)"

section \<open>The repository on disk\<close>

text \<open>
  What the collector can observe of a repository. A file has a name, the outcome of
  \<^verbatim>\<open>os.path.getsize\<close> on it and the outcome of opening it in text mode and reading its
  lines (each line with its line ending, as \<^verbatim>\<open>readlines\<close> and iteration over the file
  give them); either call may raise. A directory has a name, its subdirectories and its
  other entries, in the order in which \<^verbatim>\<open>os.walk\<close> lists them.
\<close>

datatype error =
  PermissionError | UnicodeDecodeError | IsADirectoryError | FileNotFoundError | OSError

record fileinfo =
  file_name :: string
  getsize :: "error + nat"
  readlines :: "error + string list"

datatype tree = Dir (dir_name: string) (subdirs: "tree list") (files: "fileinfo list")

section \<open>Loading the ignore file\<close>

text \<open>
  \<^verbatim>\<open>os.path.exists(gitignore_path)\<close>. It holds exactly when \<^verbatim>\<open>os.stat\<close> on the path succeeds,
  and \<^verbatim>\<open>os.path.getsize\<close> is the size that the same call returns: for an entry listed among
  the files the test holds when the size query does not raise (it fails for a dangling
  symbolic link), and it holds for a directory of that name.
\<close>

definition gitignore_exists :: "tree \<Rightarrow> bool" where
  "gitignore_exists root_path =
     (case find (\<lambda>f. file_name f = ''.gitignore'') (files root_path) of
        Some f \<Rightarrow> (case getsize f of Inl e \<Rightarrow> False | Inr n \<Rightarrow> True)
      | None \<Rightarrow> \<exists>d \<in> set (subdirs root_path). dir_name d = ''.gitignore'')"

text \<open>\<^verbatim>\<open>open(gitignore_path, "r")\<close> and the lines that iterating over the file gives. Opening
  a directory raises, and so does opening a path with no entry.\<close>

definition open_gitignore :: "tree \<Rightarrow> error + string list" where
  "open_gitignore root_path =
     (case find (\<lambda>f. file_name f = ''.gitignore'') (files root_path) of
        Some f \<Rightarrow> readlines f
      | None \<Rightarrow>
          if \<exists>d \<in> set (subdirs root_path). dir_name d = ''.gitignore''
          then Inl IsADirectoryError
          else Inl FileNotFoundError)"

text \<open>\<^verbatim>\<open>load_gitignore(root_path)\<close>. An exception raised while the file is opened or read is
  not caught.\<close>

definition load_gitignore :: "tree \<Rightarrow> error + string list" where
  "load_gitignore root_path =
     (if gitignore_exists root_path
      then
        (case open_gitignore root_path of
           Inl e \<Rightarrow> Inl e
         | Inr lines \<Rightarrow>
             Inr [strip line. line \<leftarrow> lines, strip line \<noteq> [] \<and> \<not> startswith line ''#''])
      else Inr [])"

section \<open>Collecting the snapshot\<close>

text \<open>
  The state of \<^verbatim>\<open>generate_file_tree_and_content\<close>: the dictionary \<^verbatim>\<open>repo_data\<close> and, in
  the order in which they happen, the calls that touch a file and the log records. Files
  are named by their path relative to the repository.
\<close>

datatype event =
    GetSize string
  | ReadLines string
  | LogInfo string
  | LogError string error

record state =
  repo_data :: "string \<rightharpoonup> string"
  events :: "event list"

text \<open>The body of the \<^verbatim>\<open>try\<close> statement for one file: the state it leaves and the
  exception that ended it, if any.\<close>

definition try_block :: "string \<Rightarrow> fileinfo \<Rightarrow> state \<Rightarrow> state \<times> error option" where
  "try_block relative_file_path f st =
     (let st1 = st\<lparr>events := events st @ [GetSize relative_file_path]\<rparr>
      in case getsize f of
           Inl e \<Rightarrow> (st1, Some e)
         | Inr n \<Rightarrow>
             if n > MAX_BYTES
             then (st1\<lparr>events := events st1 @
                         [LogInfo (''Skipping large file: '' @ relative_file_path)]\<rparr>, None)
             else
               let st2 = st1\<lparr>events := events st1 @ [ReadLines relative_file_path]\<rparr>
               in case readlines f of
                    Inl e \<Rightarrow> (st2, Some e)
                  | Inr lines \<Rightarrow>
                      if length lines > MAX_LINES
                      then (st2\<lparr>events := events st2 @
                                  [LogInfo (''Skipping file with too many lines: '' @
                                            relative_file_path)]\<rparr>, None)
                      else (st2\<lparr>repo_data :=
                                  (repo_data st2)(relative_file_path \<mapsto> concat lines)\<rparr>, None))"

text \<open>The body of the loop over \<^verbatim>\<open>files\<close>, with the \<^verbatim>\<open>except\<close> clause.\<close>

definition visit_file :: "string list \<Rightarrow> string \<Rightarrow> fileinfo \<Rightarrow> state \<Rightarrow> state" where
  "visit_file ignored_patterns relative_path f st =
     (let relative_file_path = path_join relative_path (file_name f)
      in if is_ignored relative_file_path ignored_patterns then st
         else
           (case try_block relative_file_path f st of
              (st', None) \<Rightarrow> st'
            | (st', Some e) \<Rightarrow>
                st'\<lparr>events := events st' @
                       [LogError (''Error reading file '' @ relative_file_path) e]\<rparr>))"

text \<open>\<^verbatim>\<open>if ".git" in dirs: dirs.remove(".git")\<close>: the first entry of that name goes.\<close>

fun remove_git :: "tree list \<Rightarrow> tree list" where
  "remove_git [] = []"
| "remove_git (d # ds) = (if dir_name d = ''.git'' then ds else d # remove_git ds)"

lemma set_remove_git: "set (remove_git ds) \<subseteq> set ds"
  by (induction ds) auto

lemma size_subdir: "d \<in> set ds \<Longrightarrow> size d < Suc (size_list size ds)"
  by (induction ds) auto

text \<open>
  \<^verbatim>\<open>os.path.relpath(os.path.join(root, d), repo_path)\<close> for a directory \<open>root\<close> that
  \<^verbatim>\<open>os.walk(repo_path)\<close> visits and whose own relative path is \<open>rel\<close> (\<^verbatim>\<open>.\<close> for the
  repository itself).
\<close>

definition child_rel :: "string \<Rightarrow> string \<Rightarrow> string" where
  "child_rel rel d = (if rel = ''.'' then d else rel @ [sep] @ d)"

text \<open>
  The loop over \<^verbatim>\<open>os.walk(repo_path)\<close>, top down: the body runs for a directory, then the
  walk goes on into the subdirectories left in \<^verbatim>\<open>dirs\<close>. After \<^verbatim>\<open>continue\<close> the list
  \<^verbatim>\<open>dirs\<close> has lost \<^verbatim>\<open>.git\<close> only, so the walk still enters the subdirectories.
\<close>

function walk :: "string list \<Rightarrow> string \<Rightarrow> tree \<Rightarrow> state \<Rightarrow> state" where
  "walk ignored_patterns rel (Dir name ds fs) st =
     (let dirs = remove_git ds;
          relative_path = (if rel = ''.'' then [] else rel)
      in if get_depth relative_path \<ge> MAX_DEPTH
         then fold (\<lambda>d. walk ignored_patterns (child_rel rel (dir_name d)) d) dirs st
         else
           let dirs' = filter (\<lambda>d. \<not> is_ignored (child_rel rel (dir_name d)) ignored_patterns) dirs;
               st' = fold (visit_file ignored_patterns relative_path) fs st
           in fold (\<lambda>d. walk ignored_patterns (child_rel rel (dir_name d)) d) dirs' st')"
  by pat_completeness auto

termination walk
proof (relation "measure (\<lambda>(ignored_patterns, rel, t, st). size t)")
  show "wf (measure (\<lambda>(ignored_patterns, rel, t, st). size t))"
    by simp
next
  fix ignored_patterns :: "string list" and rel name :: string and ds :: "tree list"
    and fs :: "fileinfo list" and st :: state and dirs d and s :: state
  assume "dirs = remove_git ds" and "d \<in> set dirs"
  then have "d \<in> set ds"
    using set_remove_git by blast
  then show "((ignored_patterns, child_rel rel (dir_name d), d, s),
              (ignored_patterns, rel, Dir name ds fs, st))
             \<in> measure (\<lambda>(ignored_patterns, rel, t, st). size t)"
    using size_subdir [of d ds] by simp
next
  fix ignored_patterns :: "string list" and rel name :: string and ds :: "tree list"
    and fs :: "fileinfo list" and st :: state and dirs dirs' d and s :: state
  assume "dirs = remove_git ds"
    and "dirs' = filter (\<lambda>d. \<not> is_ignored (child_rel rel (dir_name d)) ignored_patterns) dirs"
    and "d \<in> set dirs'"
  then have "d \<in> set ds"
    using set_remove_git by auto
  then show "((ignored_patterns, child_rel rel (dir_name d), d, s),
              (ignored_patterns, rel, Dir name ds fs, st))
             \<in> measure (\<lambda>(ignored_patterns, rel, t, st). size t)"
    using size_subdir [of d ds] by simp
qed

text \<open>The state before the loop: \<^verbatim>\<open>repo_data = {}\<close> and nothing done yet.\<close>

definition initial :: state where
  "initial = \<lparr>repo_data = Map.empty, events = []\<rparr>"

text \<open>
  \<^verbatim>\<open>generate_file_tree_and_content(repo_path)\<close>: an exception of \<^verbatim>\<open>load_gitignore\<close> leaves
  the function; otherwise the dictionary filled by the loop is returned.
\<close>

definition generate_file_tree_and_content :: "tree \<Rightarrow> error + (string \<rightharpoonup> string)" where
  "generate_file_tree_and_content repo_path =
     (case load_gitignore repo_path of
        Inl e \<Rightarrow> Inl e
      | Inr ignored_patterns \<Rightarrow> Inr (repo_data (walk ignored_patterns ''.'' repo_path initial)))"

section \<open>Notions used to state the properties of the walk\<close>

text \<open>
  The names that \<^verbatim>\<open>os.walk\<close> lists in \<^verbatim>\<open>files\<close> are names of directory entries: none
  contains the separator.
\<close>

fun files_wf :: "tree \<Rightarrow> bool" where
  "files_wf (Dir name ds fs) \<longleftrightarrow>
     (\<forall>f \<in> set fs. sep \<notin> set (file_name f)) \<and> (\<forall>d \<in> set ds. files_wf d)"

text \<open>A file for which the \<^verbatim>\<open>try\<close> statement ends in the \<^verbatim>\<open>except\<close> clause: the size query
  raises, or the size is within the limit and opening or reading raises.\<close>

definition read_fails :: "fileinfo \<Rightarrow> bool" where
  "read_fails f =
     (case getsize f of
        Inl e \<Rightarrow> True
      | Inr n \<Rightarrow> n \<le> MAX_BYTES \<and> (case readlines f of Inl e \<Rightarrow> True | Inr lines \<Rightarrow> False))"

text \<open>The repository without the files whose reading fails.\<close>

fun drop_failing :: "tree \<Rightarrow> tree" where
  "drop_failing (Dir name ds fs) =
     Dir name (map drop_failing ds) (filter (\<lambda>f. \<not> read_fails f) fs)"

text \<open>A file that was read with success and is within both limits, and the text it gives.\<close>

definition file_gives :: "fileinfo \<Rightarrow> string \<Rightarrow> bool" where
  "file_gives f content =
     (case (getsize f, readlines f) of
        (Inr n, Inr lines) \<Rightarrow> n \<le> MAX_BYTES \<and> length lines \<le> MAX_LINES \<and> content = concat lines
      | _ \<Rightarrow> False)"

text \<open>Every key of the dictionary has depth at most 2.\<close>

definition shallow_keys :: "state \<Rightarrow> bool" where
  "shallow_keys st \<longleftrightarrow> (\<forall>k \<in> dom (repo_data st). get_depth k \<le> 2)"

text \<open>
  The names in a directory as a file system has them: no two files and no two
  subdirectories of one directory have the same name, no name contains the separator,
  and a subdirectory is not named by the empty string or by a single dot.
\<close>

fun names_wf :: "tree \<Rightarrow> bool" where
  "names_wf (Dir name ds fs) \<longleftrightarrow>
     distinct (map file_name fs) \<and> (\<forall>f \<in> set fs. sep \<notin> set (file_name f)) \<and>
     distinct (map dir_name ds) \<and>
     (\<forall>d \<in> set ds. dir_name d \<noteq> [] \<and> dir_name d \<noteq> ''.'' \<and> sep \<notin> set (dir_name d) \<and>
                   names_wf d)"

text \<open>
  The files in the directories whose files the loop looks at when \<^verbatim>\<open>MAX_DEPTH\<close> is 2, each
  with its relative path: the files of the repository itself, and the files of its
  subdirectories other than \<^verbatim>\<open>.git\<close> and those that the ignore rules exclude.
\<close>

definition in_walk :: "tree \<Rightarrow> string list \<Rightarrow> string \<Rightarrow> fileinfo \<Rightarrow> bool" where
  "in_walk repo pats k f \<longleftrightarrow>
     (f \<in> set (files repo) \<and> k = file_name f) \<or>
     (\<exists>d \<in> set (subdirs repo).
        dir_name d \<noteq> ''.git'' \<and> \<not> is_ignored (dir_name d) pats \<and>
        f \<in> set (files d) \<and> k = dir_name d @ [sep] @ file_name f)"

section \<open>The ignore file as the specification words it\<close>

text \<open>
  The patterns of an ignore file in the words of the specification: the lines that are not
  blank and not comments, each trimmed, in the order of the file. A line is blank when it
  has whitespace only; it is a comment when its first character is the hash sign.
\<close>

definition is_comment :: "string \<Rightarrow> bool" where
  "is_comment line = (line \<noteq> [] \<and> hd line = CHR ''#'')"

definition is_blank :: "string \<Rightarrow> bool" where
  "is_blank line = (\<forall>c \<in> set line. isspace c)"

definition patterns_of_lines :: "string list \<Rightarrow> string list" where
  "patterns_of_lines lines = map strip (filter (\<lambda>line. \<not> is_blank line \<and> \<not> is_comment line) lines)"

section \<open>Example repositories and files\<close>

text \<open>A repository with an ignore file.\<close>

definition repo_note :: tree where
  "repo_note =
     Dir ''repo'' []
       [\<lparr>file_name = ''.gitignore'', getsize = Inr 30,
         readlines = Inr [''  # note\<newline>'', ''#build\<newline>'', ''\<newline>'', '' dist \<newline>'', ''vendor'']\<rparr>]"

text \<open>A repository whose \<^verbatim>\<open>.gitignore\<close> is a dangling symbolic link.\<close>

definition repo_dangling :: tree where
  "repo_dangling =
     Dir ''repo'' []
       [\<lparr>file_name = ''.gitignore'', getsize = Inl FileNotFoundError,
         readlines = Inl FileNotFoundError\<rparr>,
        \<lparr>file_name = ''README.md'', getsize = Inr 3, readlines = Inr [''hi\<newline>'']\<rparr>]"

text \<open>A repository with a file at the root, one in \<^verbatim>\<open>a\<close> and one in \<^verbatim>\<open>a/b\<close>.\<close>

definition repo_nested :: tree where
  "repo_nested =
     Dir ''repo''
       [Dir ''a''
          [Dir ''b'' [] [\<lparr>file_name = ''c.txt'', getsize = Inr 2, readlines = Inr [''c\<newline>'']\<rparr>]]
          [\<lparr>file_name = ''x.txt'', getsize = Inr 3, readlines = Inr [''x\<newline>'', ''y'']\<rparr>]]
       [\<lparr>file_name = ''README.md'', getsize = Inr 3, readlines = Inr [''hi\<newline>'']\<rparr>]"

text \<open>
  A repository with a file of exactly 102400 bytes in 1000 lines (one long line and 999
  lines of two bytes), a file of 102401 bytes in one line, and a file of 1001 lines.
\<close>

definition lines_at_limits :: "string list" where
  "lines_at_limits = (replicate 100401 CHR ''x'' @ ''\<newline>'') # replicate 999 ''x\<newline>''"

definition file_at_limits :: fileinfo where
  "file_at_limits =
     \<lparr>file_name = ''at_limits.txt'', getsize = Inr 102400, readlines = Inr lines_at_limits\<rparr>"

definition file_too_large :: fileinfo where
  "file_too_large =
     \<lparr>file_name = ''too_large.txt'', getsize = Inr 102401,
      readlines = Inr [replicate 102400 CHR ''x'' @ ''\<newline>'']\<rparr>"

definition file_too_long :: fileinfo where
  "file_too_long =
     \<lparr>file_name = ''too_long.txt'', getsize = Inr 2002, readlines = Inr (replicate 1001 ''x\<newline>'')\<rparr>"

definition repo_limits :: tree where
  "repo_limits = Dir ''repo'' [] [file_at_limits, file_too_large, file_too_long]"

text \<open>A repository whose ignore file exists and cannot be opened.\<close>

definition repo_locked_ignore :: tree where
  "repo_locked_ignore =
     Dir ''repo'' []
       [\<lparr>file_name = ''.gitignore'', getsize = Inr 7, readlines = Inl PermissionError\<rparr>,
        \<lparr>file_name = ''README.md'', getsize = Inr 3, readlines = Inr [''hi\<newline>'']\<rparr>]"

section \<open>Properties of the string functions\<close>

lemma length_split_from: "length (split_from cur s) = Suc (count_list s sep)"
  by (induction s arbitrary: cur) auto

lemma split_from_not_Nil: "split_from cur s \<noteq> []"
  by (induction s arbitrary: cur) auto

lemma takeWhile_snoc:
  "takeWhile P (xs @ [x]) = (if \<forall>y \<in> set xs. P y then xs @ (if P x then [x] else []) else takeWhile P xs)"
  by (induction xs) auto

lemma last_split_from:
  "last (split_from cur s) =
     (if sep \<in> set s then rev (takeWhile (\<lambda>c. c \<noteq> sep) (rev s)) else cur @ s)"
proof (induction s arbitrary: cur)
  case Nil
  then show ?case by simp
next
  case (Cons c cs)
  show ?case
  proof (cases "c = sep")
    case True
    then show ?thesis
      using Cons.IH [of "[]"] 
      by (auto simp: split_from_not_Nil takeWhile_snoc takeWhile_eq_all_conv)
  next
    case False
    then show ?thesis
      using Cons.IH [of "cur @ [c]"]
      by (auto simp: split_from_not_Nil takeWhile_snoc)
  qed
qed

lemma basename_last_split: "basename p = last (split_sep p)"
proof (cases "sep \<in> set p")
  case True
  then show ?thesis by (simp add: basename_def split_sep_def last_split_from)
next
  case False
  have "takeWhile (\<lambda>c. c \<noteq> sep) (rev p) = rev p"
    by (rule takeWhile_eq_all_conv [THEN iffD2]) (use False in auto)
  then have "basename p = p"
    unfolding basename_def by (simp only: rev_rev_ident)
  with False show ?thesis by (simp add: split_sep_def last_split_from)
qed

text \<open>The segments of a path: the parts without separator that are bounded by separators or
  by the ends of the path.\<close>

lemma split_from_no_sep: "sep \<notin> set s \<Longrightarrow> split_from cur s = [cur @ s]"
  by (induction s arbitrary: cur) auto

lemma split_from_append_sep:
  "split_from cur (a @ sep # b) = split_from cur a @ split_from [] b"
  by (induction a arbitrary: cur) auto

lemma split_sep_append_sep: "split_sep (a @ sep # b) = split_sep a @ split_sep b"
  by (simp add: split_sep_def split_from_append_sep)

lemma split_from_sep_free_all:
  "sep \<notin> set cur \<Longrightarrow> \<forall>seg \<in> set (split_from cur s). sep \<notin> set seg"
proof (induction s arbitrary: cur)
  case Nil
  then show ?case by simp
next
  case (Cons c s)
  show ?case
  proof (cases "c = sep")
    case True
    with Cons.prems Cons.IH [of "[]"] show ?thesis by simp
  next
    case False
    with Cons.prems Cons.IH [of "cur @ [c]"] show ?thesis by simp
  qed
qed

lemma split_from_sep_free: "sep \<notin> set cur \<Longrightarrow> seg \<in> set (split_from cur s) \<Longrightarrow> sep \<notin> set seg"
  using split_from_sep_free_all by blast

lemma split_from_segment:
  "seg \<in> set (split_from cur s) \<Longrightarrow>
   \<exists>pre post. cur @ s = pre @ seg @ post \<and> (pre = [] \<or> last pre = sep) \<and>
              (post = [] \<or> hd post = sep)"
proof (induction s arbitrary: cur)
  case Nil
  then have "cur @ [] = [] @ seg @ []"
    by simp
  then show ?case
    by blast
next
  case (Cons c s)
  show ?case
  proof (cases "c = sep")
    case True
    with Cons.prems consider "seg = cur" | "seg \<in> set (split_from [] s)"
      by auto
    then show ?thesis
    proof cases
      case 1
      with True have "cur @ c # s = [] @ seg @ (sep # s)"
        by simp
      then show ?thesis
        by (metis list.sel(1))
    next
      case 2
      from Cons.IH [OF this] obtain pre post
        where "[] @ s = pre @ seg @ post" and "pre = [] \<or> last pre = sep"
          and "post = [] \<or> hd post = sep"
        by blast
      with True have "cur @ c # s = (cur @ sep # pre) @ seg @ post"
        and "last (cur @ sep # pre) = sep"
        by auto
      with \<open>post = [] \<or> hd post = sep\<close> show ?thesis
        by blast
    qed
  next
    case False
    with Cons.prems have "seg \<in> set (split_from (cur @ [c]) s)"
      by simp
    from Cons.IH [OF this] show ?thesis
      by simp
  qed
qed

lemma segment_iff:
  "seg \<in> set (split_sep P) \<longleftrightarrow>
     sep \<notin> set seg \<and>
     (\<exists>pre post. P = pre @ seg @ post \<and> (pre = [] \<or> last pre = sep) \<and>
                 (post = [] \<or> hd post = sep))"
proof
  assume a: "seg \<in> set (split_sep P)"
  then have "sep \<notin> set seg"
    using split_from_sep_free [of "[]" seg P] by (simp add: split_sep_def)
  moreover from a have "\<exists>pre post. P = pre @ seg @ post \<and> (pre = [] \<or> last pre = sep) \<and>
                 (post = [] \<or> hd post = sep)"
    using split_from_segment [of seg "[]" P] by (simp add: split_sep_def)
  ultimately show "sep \<notin> set seg \<and>
     (\<exists>pre post. P = pre @ seg @ post \<and> (pre = [] \<or> last pre = sep) \<and>
                 (post = [] \<or> hd post = sep))"
    by blast
next
  assume "sep \<notin> set seg \<and>
     (\<exists>pre post. P = pre @ seg @ post \<and> (pre = [] \<or> last pre = sep) \<and>
                 (post = [] \<or> hd post = sep))"
  then obtain pre post where free: "sep \<notin> set seg" and P: "P = pre @ seg @ post"
    and pre: "pre = [] \<or> last pre = sep" and post: "post = [] \<or> hd post = sep"
    by blast
  have tail: "seg \<in> set (split_sep (seg @ post))"
  proof (cases post)
    case Nil
    with free show ?thesis
      by (simp add: split_sep_def split_from_no_sep)
  next
    case (Cons c post')
    with post have "seg @ post = seg @ sep # post'"
      by simp
    with free show ?thesis
      by (simp add: split_sep_append_sep) (simp add: split_sep_def split_from_no_sep)
  qed
  show "seg \<in> set (split_sep P)"
  proof (cases "pre = []")
    case True
    with P tail show ?thesis by simp
  next
    case False
    with pre obtain pre' where "pre = pre' @ [sep]"
      by (metis append_butlast_last_id)
    with P have "P = pre' @ sep # (seg @ post)"
      by simp
    with tail show ?thesis
      by (simp add: split_sep_append_sep)
  qed
qed

section \<open>Properties of the ignore rules\<close>

text \<open>Every deny-list entry is already in lower case, so \<^verbatim>\<open>ext.lower()\<close> changes nothing.\<close>

lemma lower_extension_entries:
  "lower ''.pyc'' = ''.pyc'' \<and> lower ''.tar'' = ''.tar'' \<and> lower ''.7z'' = ''.7z'' \<and>
   lower ''.zip'' = ''.zip'' \<and> lower ''.mp4'' = ''.mp4'' \<and> lower ''.mp3'' = ''.mp3'' \<and>
   lower ''.pdf'' = ''.pdf'' \<and> lower ''.jpg'' = ''.jpg'' \<and> lower ''.png'' = ''.png'' \<and>
   lower ''tar.lz'' = ''tar.lz''"
  by code_simp

lemma lower_excluded_extension: "ext \<in> EXCLUDED_EXTENSIONS \<Longrightarrow> lower ext = ext"
  using lower_extension_entries by (auto simp: EXCLUDED_EXTENSIONS_def)

lemma is_ignored_extension:
  "ext \<in> EXCLUDED_EXTENSIONS \<Longrightarrow> endswith P ext \<Longrightarrow> is_ignored P pats"
  using lower_excluded_extension by (auto simp: is_ignored_def)

lemma is_ignored_iff:
  "is_ignored P pats \<longleftrightarrow>
     (\<exists>ext \<in> EXCLUDED_EXTENSIONS. suffix ext P) \<or>
     lower (basename P) \<in> EXCLUDED_FILES \<or>
     (\<exists>pat \<in> set pats. prefix pat P \<or> pat \<in> set (split_sep P))"
  using lower_excluded_extension by (auto simp: is_ignored_def endswith_def startswith_def)

text \<open>
  Claim C1. A path ending in a deny-listed extension is ignored whatever the patterns are
  (\<open>is_ignored_extension\<close> above), but the test is not case-insensitive: the source lowers
  the deny-list entry and compares it with the path as given, so \<^verbatim>\<open>PHOTO.PNG\<close> is not
  ignored while \<^verbatim>\<open>photo.png\<close> is.
\<close>

theorem is_ignored_uppercase_extension:
  "is_ignored ''PHOTO.PNG'' [] = False \<and> is_ignored ''photo.png'' [] = True"
  by code_simp

text \<open>
  Claim C5. A pattern of the list that is a prefix of the path, or equal to one of the
  segments of the path split on the separator, makes \<open>is_ignored\<close> true, and the result is
  the verdict of the fixed deny-lists or-ed with that test over all patterns. A prefix is
  an initial part of the path as a string; a segment is a part without separator that is
  bounded on each side by a separator or by an end of the path. The match is literal:
  \<^verbatim>\<open>build\<close> matches \<^verbatim>\<open>buildx/main.c\<close> by prefix and \<^verbatim>\<open>src/build/x.c\<close> by segment, it does
  not match \<^verbatim>\<open>src/buildx/x.c\<close>, and \<^verbatim>\<open>*.c\<close> does not match \<^verbatim>\<open>main.c\<close>.
\<close>

theorem is_ignored_pattern:
  "(pat \<in> set patterns \<and> (startswith P pat \<or> pat \<in> set (split_sep P))
      \<longrightarrow> is_ignored P patterns) \<and>
   (startswith P pat \<longleftrightarrow> (\<exists>rest. P = pat @ rest)) \<and>
   (pat \<in> set (split_sep P) \<longleftrightarrow>
      sep \<notin> set pat \<and>
      (\<exists>pre post. P = pre @ pat @ post \<and> (pre = [] \<or> last pre = sep) \<and>
                  (post = [] \<or> hd post = sep))) \<and>
   is_ignored P patterns =
     (is_ignored P [] \<or>
      (\<exists>pat \<in> set patterns. startswith P pat \<or> pat \<in> set (split_sep P))) \<and>
   is_ignored ''buildx/main.c'' [''build''] \<and>
   is_ignored ''src/build/x.c'' [''build''] \<and>
   \<not> is_ignored ''src/buildx/x.c'' [''build''] \<and>
   \<not> is_ignored ''main.c'' [''*.c'']"
proof -
  have a: "is_ignored P patterns =
     (is_ignored P [] \<or>
      (\<exists>pat \<in> set patterns. startswith P pat \<or> pat \<in> set (split_sep P)))"
    by (auto simp: is_ignored_def)
  have b: "startswith P pat \<longleftrightarrow> (\<exists>rest. P = pat @ rest)"
    by (simp add: startswith_def prefix_def)
  have c: "pat \<in> set (split_sep P) \<longleftrightarrow>
      sep \<notin> set pat \<and>
      (\<exists>pre post. P = pre @ pat @ post \<and> (pre = [] \<or> last pre = sep) \<and>
                  (post = [] \<or> hd post = sep))"
    by (rule segment_iff)
  have d: "is_ignored ''buildx/main.c'' [''build'']"
    by code_simp
  have e: "is_ignored ''src/build/x.c'' [''build'']"
    by code_simp
  have f: "\<not> is_ignored ''src/buildx/x.c'' [''build'']"
    by code_simp
  have g: "\<not> is_ignored ''main.c'' [''*.c'']"
    by code_simp
  from a have h: "pat \<in> set patterns \<and> (startswith P pat \<or> pat \<in> set (split_sep P))
      \<longrightarrow> is_ignored P patterns"
    by blast
  from h b c a d e f g show ?thesis
    by (intro conjI)
qed

theorem is_ignored_pattern_witness:
  "''build'' \<in> set [''dist'', ''build''] \<and>
   ''build'' \<in> set (split_sep ''src/build/x.c'') \<and>
   \<not> startswith ''src/build/x.c'' ''build'' \<and>
   is_ignored ''src/build/x.c'' [''dist'', ''build''] \<and>
   startswith ''buildx/main.c'' ''build'' \<and>
   ''build'' \<notin> set (split_sep ''buildx/main.c'') \<and>
   is_ignored ''buildx/main.c'' [''dist'', ''build'']"
proof -
  have m: "''build'' \<in> set [''dist'', ''build'']"
    by simp
  have s1: "''build'' \<in> set (split_sep ''src/build/x.c'')"
    by code_simp
  have s2: "\<not> startswith ''src/build/x.c'' ''build''"
    by (simp add: startswith_def)
  have p1: "startswith ''buildx/main.c'' ''build''"
    by (simp add: startswith_def)
  have p2: "''build'' \<notin> set (split_sep ''buildx/main.c'')"
    by code_simp
  from is_ignored_pattern [of "''build''" "[''dist'', ''build'']" "''src/build/x.c''"] m s1
  have r1: "is_ignored ''src/build/x.c'' [''dist'', ''build'']"
    by blast
  from is_ignored_pattern [of "''build''" "[''dist'', ''build'']" "''buildx/main.c''"] m p1
  have r2: "is_ignored ''buildx/main.c'' [''dist'', ''build'']"
    by blast
  from m s1 s2 r1 p1 p2 r2 show ?thesis by blast
qed

text \<open>
  Claim C6. A path whose final segment, in lower case, is in the filename deny-list is
  ignored for every pattern list.
\<close>

theorem is_ignored_excluded_file:
  "lower (last (split_sep P)) \<in> EXCLUDED_FILES \<Longrightarrow> is_ignored P patterns"
  by (simp add: is_ignored_def basename_last_split)

theorem is_ignored_excluded_file_witness:
  "lower (last (split_sep ''docs/LICENSE.md'')) \<in> EXCLUDED_FILES \<and>
   is_ignored ''docs/LICENSE.md'' [''x'']"
proof -
  have h: "lower (last (split_sep ''docs/LICENSE.md'')) \<in> EXCLUDED_FILES"
    by code_simp
  from is_ignored_excluded_file [OF h] h show ?thesis by blast
qed

text \<open>
  Claim C8. The depth of a string is at least 1; it is the number of segments of the
  string split on the separator, that is one more than the number of separators in it;
  the empty string splits into one empty segment and has depth 1.
\<close>

theorem get_depth_segments:
  "1 \<le> get_depth s \<and>
   get_depth s = length (split_sep s) \<and>
   get_depth s = Suc (count_list s sep) \<and>
   split_sep [] = [[]] \<and>
   get_depth [] = 1"
  by (simp add: get_depth_def split_sep_def length_split_from)

text \<open>
  Claim C10. The extension test is a suffix test on the whole path, and the entry
  \<^verbatim>\<open>tar.lz\<close> has no leading dot: every path ending in \<^verbatim>\<open>tar.lz\<close> is ignored, as
  \<^verbatim>\<open>avatar.lz\<close> is, though \<^verbatim>\<open>.lz\<close> is not in the deny-list and the name is not a
  deny-listed file name.
\<close>

theorem is_ignored_tar_lz:
  "(endswith P ''tar.lz'' \<longrightarrow> is_ignored P patterns) \<and>
   is_ignored ''avatar.lz'' [] \<and>
   ''.lz'' \<notin> EXCLUDED_EXTENSIONS \<and>
   lower (basename ''avatar.lz'') \<notin> EXCLUDED_FILES"
proof -
  have "''tar.lz'' \<in> EXCLUDED_EXTENSIONS"
    by (simp add: EXCLUDED_EXTENSIONS_def)
  then have a: "endswith P ''tar.lz'' \<longrightarrow> is_ignored P patterns"
    using is_ignored_extension by blast
  have b: "is_ignored ''avatar.lz'' []"
    by code_simp
  have c: "''.lz'' \<notin> EXCLUDED_EXTENSIONS"
    by (simp add: EXCLUDED_EXTENSIONS_def)
  have d: "lower (basename ''avatar.lz'') \<notin> EXCLUDED_FILES"
    by code_simp
  from a b c d show ?thesis by blast
qed

theorem is_ignored_tar_lz_witness:
  "endswith ''pkg/avatar.lz'' ''tar.lz'' \<and> is_ignored ''pkg/avatar.lz'' [''x'']"
proof -
  have h: "endswith ''pkg/avatar.lz'' ''tar.lz''"
    by (simp add: endswith_def suffix_to_prefix)
  from is_ignored_tar_lz [of "''pkg/avatar.lz''" "[''x'']"] h show ?thesis by blast
qed

section \<open>Properties of the ignore file loader\<close>

lemma dropWhile_all_iff: "(\<forall>x \<in> set (dropWhile P s). P x) \<longleftrightarrow> (\<forall>x \<in> set s. P x)"
  by (induction s) auto

lemma strip_Nil_iff: "strip s = [] \<longleftrightarrow> is_blank s"
  by (simp add: strip_def is_blank_def dropWhile_eq_Nil_conv dropWhile_all_iff)

lemma dropWhile_idem: "dropWhile P (dropWhile P s) = dropWhile P s"
  by (induction s) auto

lemma dropWhile_rev_dropWhile:
  "dropWhile P (rev (dropWhile P (rev (dropWhile P s)))) = rev (dropWhile P (rev (dropWhile P s)))"
proof (induction s)
  case Nil
  then show ?case by simp
next
  case (Cons c cs)
  show ?case
  proof (cases "P c")
    case True
    with Cons show ?thesis by simp
  next
    case False
    then have "dropWhile P (rev cs @ [c]) = dropWhile P (rev cs) @ [c]"
      by (simp add: dropWhile_append3)
    then have "rev (dropWhile P (rev (c # cs))) = c # rev (dropWhile P (rev cs))"
      by simp
    with False show ?thesis by simp
  qed
qed

lemma strip_idem: "strip (strip s) = strip s"
  unfolding strip_def
  by (simp only: dropWhile_rev_dropWhile rev_rev_ident dropWhile_idem)

lemma startswith_hash: "startswith line ''#'' \<longleftrightarrow> is_comment line"
  by (cases line) (auto simp: startswith_def is_comment_def)

lemma comprehension_patterns:
  "[strip line. line \<leftarrow> lines, strip line \<noteq> [] \<and> \<not> startswith line ''#''] = patterns_of_lines lines"
  by (induction lines) (auto simp: patterns_of_lines_def strip_Nil_iff startswith_hash)

lemma subseq_patterns: "subseq (patterns_of_lines lines) (map strip lines)"
  unfolding patterns_of_lines_def by (induction lines) auto

lemma patterns_trimmed:
  "pattern \<in> set (patterns_of_lines lines) \<Longrightarrow> pattern \<noteq> [] \<and> strip pattern = pattern"
  by (auto simp: patterns_of_lines_def strip_idem strip_Nil_iff)

lemma load_gitignore_absent: "\<not> gitignore_exists root_path \<Longrightarrow> load_gitignore root_path = Inr []"
  by (simp add: load_gitignore_def)

lemma load_gitignore_present:
  "gitignore_exists root_path \<Longrightarrow>
   find (\<lambda>f. file_name f = ''.gitignore'') (files root_path) = Some f \<Longrightarrow>
   readlines f = Inr lines \<Longrightarrow> load_gitignore root_path = Inr (patterns_of_lines lines)"
  by (simp add: load_gitignore_def open_gitignore_def comprehension_patterns)

lemma load_gitignore_unreadable:
  "gitignore_exists root_path \<Longrightarrow> open_gitignore root_path = Inl e \<Longrightarrow>
   load_gitignore root_path = Inl e"
  by (simp add: load_gitignore_def)

text \<open>
  Claim C7. When \<^verbatim>\<open>os.path.exists\<close> is false for \<^verbatim>\<open>.gitignore\<close> at the root (no entry of
  that name, or an entry that \<^verbatim>\<open>os.stat\<close> cannot reach) the loader returns the empty list
  and does not fail. When the file exists and can be read, the result is exactly the lines
  that are not blank after trimming and not comment lines (first character the hash
  sign), each trimmed, in the order of the file: a subsequence of the trimmed lines, none
  of them empty and none with whitespace left at either end.
\<close>

theorem load_gitignore_lines:
  "(\<not> gitignore_exists root_path \<longrightarrow> load_gitignore root_path = Inr []) \<and>
   (gitignore_exists root_path \<and>
    find (\<lambda>f. file_name f = ''.gitignore'') (files root_path) = Some f \<and>
    readlines f = Inr lines \<longrightarrow>
      load_gitignore root_path = Inr (patterns_of_lines lines) \<and>
      subseq (patterns_of_lines lines) (map strip lines) \<and>
      (\<forall>pattern \<in> set (patterns_of_lines lines). pattern \<noteq> [] \<and> strip pattern = pattern))"
  using load_gitignore_absent load_gitignore_present subseq_patterns patterns_trimmed
  by blast

lemma load_gitignore_repo_note: "load_gitignore repo_note = Inr [''# note'', ''dist'', ''vendor'']"
  unfolding repo_note_def by code_simp

theorem load_gitignore_lines_witness:
  "\<not> gitignore_exists (Dir ''repo'' [] []) \<and>
   load_gitignore (Dir ''repo'' [] []) = Inr [] \<and>
   \<not> gitignore_exists repo_dangling \<and>
   load_gitignore repo_dangling = Inr [] \<and>
   gitignore_exists repo_note \<and>
   find (\<lambda>f. file_name f = ''.gitignore'') (files repo_note) = Some (hd (files repo_note)) \<and>
   readlines (hd (files repo_note)) =
     Inr [''  # note\<newline>'', ''#build\<newline>'', ''\<newline>'', '' dist \<newline>'', ''vendor''] \<and>
   load_gitignore repo_note =
     Inr (patterns_of_lines [''  # note\<newline>'', ''#build\<newline>'', ''\<newline>'', '' dist \<newline>'', ''vendor'']) \<and>
   patterns_of_lines [''  # note\<newline>'', ''#build\<newline>'', ''\<newline>'', '' dist \<newline>'', ''vendor''] =
     [''# note'', ''dist'', ''vendor'']"
proof -
  have a: "\<not> gitignore_exists (Dir ''repo'' [] [])"
    by (simp add: gitignore_exists_def)
  have a': "\<not> gitignore_exists repo_dangling"
    by (simp add: gitignore_exists_def repo_dangling_def)
  have x: "gitignore_exists repo_note"
    by (simp add: gitignore_exists_def repo_note_def)
  have b: "find (\<lambda>f. file_name f = ''.gitignore'') (files repo_note) = Some (hd (files repo_note))"
    by (simp add: repo_note_def)
  have c: "readlines (hd (files repo_note)) =
     Inr [''  # note\<newline>'', ''#build\<newline>'', ''\<newline>'', '' dist \<newline>'', ''vendor'']"
    by (simp add: repo_note_def)
  have d: "patterns_of_lines [''  # note\<newline>'', ''#build\<newline>'', ''\<newline>'', '' dist \<newline>'', ''vendor''] =
     [''# note'', ''dist'', ''vendor'']"
    by code_simp
  from load_gitignore_lines [of "Dir ''repo'' [] []"] a
  have e: "load_gitignore (Dir ''repo'' [] []) = Inr []"
    by blast
  from load_gitignore_lines [of repo_dangling] a'
  have e': "load_gitignore repo_dangling = Inr []"
    by blast
  from load_gitignore_lines [of repo_note "hd (files repo_note)"] x b c
  have f: "load_gitignore repo_note =
     Inr (patterns_of_lines [''  # note\<newline>'', ''#build\<newline>'', ''\<newline>'', '' dist \<newline>'', ''vendor''])"
    by blast
  from a a' x b c d e e' f show ?thesis by blast
qed

text \<open>
  Claim C9. The comment test looks at the raw line: a line that is not blank and whose
  first character is not the hash sign is kept, trimmed. So the line of two spaces and
  \<^verbatim>\<open># note\<close> gives the pattern \<^verbatim>\<open># note\<close>, which begins with the hash sign.
\<close>

theorem load_gitignore_indented_comment:
  "(gitignore_exists root_path \<and>
    find (\<lambda>f. file_name f = ''.gitignore'') (files root_path) = Some f \<and>
    readlines f = Inr lines \<and> line \<in> set lines \<and> strip line \<noteq> [] \<and> hd line \<noteq> CHR ''#''
      \<longrightarrow> (\<exists>patterns. load_gitignore root_path = Inr patterns \<and> strip line \<in> set patterns)) \<and>
   load_gitignore
     (Dir ''repo'' []
        [\<lparr>file_name = ''.gitignore'', getsize = Inr 9, readlines = Inr [''  # note\<newline>'']\<rparr>]) =
     Inr [''# note''] \<and>
   startswith ''# note'' ''#''"
proof -
  have a: "gitignore_exists root_path \<and>
    find (\<lambda>f. file_name f = ''.gitignore'') (files root_path) = Some f \<and>
    readlines f = Inr lines \<and> line \<in> set lines \<and> strip line \<noteq> [] \<and> hd line \<noteq> CHR ''#''
      \<longrightarrow> (\<exists>patterns. load_gitignore root_path = Inr patterns \<and> strip line \<in> set patterns)"
    by (auto simp: load_gitignore_present patterns_of_lines_def strip_Nil_iff is_comment_def)
  have b: "load_gitignore
     (Dir ''repo'' []
        [\<lparr>file_name = ''.gitignore'', getsize = Inr 9, readlines = Inr [''  # note\<newline>'']\<rparr>]) =
     Inr [''# note'']"
    by code_simp
  have c: "startswith ''# note'' ''#''"
    by (simp add: startswith_def)
  from a b c show ?thesis by blast
qed

theorem load_gitignore_indented_comment_witness:
  "gitignore_exists repo_note \<and>
   find (\<lambda>f. file_name f = ''.gitignore'') (files repo_note) = Some (hd (files repo_note)) \<and>
   readlines (hd (files repo_note)) =
     Inr [''  # note\<newline>'', ''#build\<newline>'', ''\<newline>'', '' dist \<newline>'', ''vendor''] \<and>
   strip ''  # note\<newline>'' = ''# note'' \<and>
   hd ''  # note\<newline>'' \<noteq> CHR ''#'' \<and>
   (\<exists>patterns. load_gitignore repo_note = Inr patterns \<and> ''# note'' \<in> set patterns)"
proof -
  have x: "gitignore_exists repo_note"
    by (simp add: gitignore_exists_def repo_note_def)
  have b: "find (\<lambda>f. file_name f = ''.gitignore'') (files repo_note) = Some (hd (files repo_note))"
    by (simp add: repo_note_def)
  have c: "readlines (hd (files repo_note)) =
     Inr [''  # note\<newline>'', ''#build\<newline>'', ''\<newline>'', '' dist \<newline>'', ''vendor'']"
    by (simp add: repo_note_def)
  have d: "strip ''  # note\<newline>'' = ''# note''"
    by code_simp
  have e: "hd ''  # note\<newline>'' \<noteq> CHR ''#''"
    by simp
  from load_gitignore_indented_comment
         [of repo_note "hd (files repo_note)"
             "[''  # note\<newline>'', ''#build\<newline>'', ''\<newline>'', '' dist \<newline>'', ''vendor'']"
             "''  # note\<newline>''"] x b c d e
  have "\<exists>patterns. load_gitignore repo_note = Inr patterns \<and> ''# note'' \<in> set patterns"
    by simp
  with x b c d e show ?thesis by blast
qed

section \<open>Properties of the walk\<close>

declare walk.simps [simp del]

lemma walk_Dir:
  "walk pats rel (Dir name ds fs) st =
     (if MAX_DEPTH \<le> get_depth (if rel = ''.'' then [] else rel)
      then fold (\<lambda>d. walk pats (child_rel rel (dir_name d)) d) (remove_git ds) st
      else fold (\<lambda>d. walk pats (child_rel rel (dir_name d)) d)
             (filter (\<lambda>d. \<not> is_ignored (child_rel rel (dir_name d)) pats) (remove_git ds))
             (fold (visit_file pats (if rel = ''.'' then [] else rel)) fs st))"
  by (simp add: walk.simps Let_def)

lemma fold_preserves:
  assumes "P st" and "\<And>y st'. y \<in> set ys \<Longrightarrow> P st' \<Longrightarrow> P (step y st')"
  shows "P (fold step ys st)"
  using assms by (induction ys arbitrary: st) auto

lemma fold_related:
  assumes "R st1 st2"
    and "\<And>y st1' st2'. y \<in> set ys \<Longrightarrow> R st1' st2' \<Longrightarrow> R (step1 y st1') (step2 y st2')"
  shows "R (fold step1 ys st1) (fold step2 ys st2)"
  using assms by (induction ys arbitrary: st1 st2) auto

lemma get_depth_count: "get_depth s = Suc (count_list s sep)"
  by (simp add: get_depth_def split_sep_def length_split_from)

lemma count_list_append: "count_list (xs @ ys) c = count_list xs c + count_list ys c"
  by (induction xs) auto

lemma count_list_0_iff: "count_list xs c = 0 \<longleftrightarrow> c \<notin> set xs"
  by (induction xs) auto

lemma child_rel_deep:
  assumes "MAX_DEPTH \<le> get_depth (if rel = ''.'' then [] else rel)"
  shows "MAX_DEPTH \<le> get_depth (if child_rel rel d = ''.'' then [] else child_rel rel d)"
proof -
  from assms have r: "rel \<noteq> ''.''"
    by (auto simp: MAX_DEPTH_def get_depth_count)
  then have c: "child_rel rel d = rel @ [sep] @ d"
    by (simp add: child_rel_def)
  then have "child_rel rel d \<noteq> ''.''"
    by (cases rel) (auto simp: sep_def)
  with c show ?thesis
    by (simp add: MAX_DEPTH_def get_depth_count count_list_append)
qed

lemma walk_deep:
  "MAX_DEPTH \<le> get_depth (if rel = ''.'' then [] else rel) \<Longrightarrow> walk pats rel t st = st"
proof (induction pats rel t st rule: walk.induct)
  case (1 pats rel name ds fs st)
  have "fold (\<lambda>d. walk pats (child_rel rel (dir_name d)) d) (remove_git ds) st = st"
  proof (rule fold_preserves [where P = "\<lambda>s. s = st"])
    show "st = st" by simp
  next
    fix d s
    assume "d \<in> set (remove_git ds)" and "s = st"
    then show "walk pats (child_rel rel (dir_name d)) d s = st"
      using "1.IH"(1) [OF refl refl "1.prems" _ child_rel_deep [OF "1.prems"]] by simp
  qed
  with "1.prems" show ?case
    by (simp add: walk_Dir)
qed

subsection \<open>One file\<close>

lemma visit_file_ignored:
  "is_ignored (path_join rp (file_name f)) pats \<Longrightarrow> visit_file pats rp f st = st"
  by (simp add: visit_file_def)

lemma visit_file_getsize_error:
  "\<not> is_ignored p pats \<Longrightarrow> p = path_join rp (file_name f) \<Longrightarrow> getsize f = Inl e \<Longrightarrow>
   visit_file pats rp f st =
     st\<lparr>events := events st @ [GetSize p, LogError (''Error reading file '' @ p) e]\<rparr>"
  by (simp add: visit_file_def try_block_def Let_def)

lemma visit_file_large:
  "\<not> is_ignored p pats \<Longrightarrow> p = path_join rp (file_name f) \<Longrightarrow> getsize f = Inr n \<Longrightarrow>
   MAX_BYTES < n \<Longrightarrow>
   visit_file pats rp f st =
     st\<lparr>events := events st @ [GetSize p, LogInfo (''Skipping large file: '' @ p)]\<rparr>"
  by (simp add: visit_file_def try_block_def Let_def)

lemma visit_file_read_error:
  "\<not> is_ignored p pats \<Longrightarrow> p = path_join rp (file_name f) \<Longrightarrow> getsize f = Inr n \<Longrightarrow>
   n \<le> MAX_BYTES \<Longrightarrow> readlines f = Inl e \<Longrightarrow>
   visit_file pats rp f st =
     st\<lparr>events := events st @
            [GetSize p, ReadLines p, LogError (''Error reading file '' @ p) e]\<rparr>"
  by (simp add: visit_file_def try_block_def Let_def)

lemma visit_file_long:
  "\<not> is_ignored p pats \<Longrightarrow> p = path_join rp (file_name f) \<Longrightarrow> getsize f = Inr n \<Longrightarrow>
   n \<le> MAX_BYTES \<Longrightarrow> readlines f = Inr lines \<Longrightarrow> MAX_LINES < length lines \<Longrightarrow>
   visit_file pats rp f st =
     st\<lparr>events := events st @
            [GetSize p, ReadLines p, LogInfo (''Skipping file with too many lines: '' @ p)]\<rparr>"
  by (simp add: visit_file_def try_block_def Let_def)

lemma visit_file_stored:
  "\<not> is_ignored p pats \<Longrightarrow> p = path_join rp (file_name f) \<Longrightarrow> getsize f = Inr n \<Longrightarrow>
   n \<le> MAX_BYTES \<Longrightarrow> readlines f = Inr lines \<Longrightarrow> length lines \<le> MAX_LINES \<Longrightarrow>
   visit_file pats rp f st =
     st\<lparr>repo_data := (repo_data st)(p \<mapsto> concat lines),
        events := events st @ [GetSize p, ReadLines p]\<rparr>"
  by (simp add: visit_file_def try_block_def Let_def)

text \<open>The dictionary after one file: unchanged, or with the entry of that file.\<close>

lemma visit_file_repo_data:
  "repo_data (visit_file pats rp f st) =
     (if \<not> is_ignored (path_join rp (file_name f)) pats \<and> \<not> read_fails f \<and>
         file_gives f (concat (projr (readlines f)))
      then (repo_data st)(path_join rp (file_name f) \<mapsto> concat (projr (readlines f)))
      else repo_data st)"
  by (auto simp: visit_file_def try_block_def read_fails_def file_gives_def Let_def
           split: sum.splits)

subsection \<open>Depth of the keys\<close>

lemma path_join_depth:
  assumes "sep \<notin> set name" and "get_depth rp < MAX_DEPTH"
  shows "get_depth (path_join rp name) \<le> 2"
proof -
  from assms(2) have rp: "sep \<notin> set rp"
    by (simp add: MAX_DEPTH_def get_depth_count count_list_0_iff)
  from assms(1) have "\<not> startswith name [sep]"
    by (cases name) (auto simp: startswith_def)
  then have "path_join rp name = rp @ name \<or> path_join rp name = rp @ [sep] @ name"
    by (simp add: path_join_def)
  moreover from rp assms(1) have "count_list rp sep = 0" and "count_list name sep = 0"
    by (simp_all add: count_list_0_iff)
  ultimately show ?thesis
    by (auto simp: get_depth_count count_list_append)
qed

lemma visit_file_shallow:
  "sep \<notin> set (file_name f) \<Longrightarrow> get_depth rp < MAX_DEPTH \<Longrightarrow> shallow_keys st \<Longrightarrow>
   shallow_keys (visit_file pats rp f st)"
  by (auto simp: shallow_keys_def visit_file_repo_data path_join_depth split: if_splits)

lemma walk_shallow_keys:
  "files_wf t \<Longrightarrow> shallow_keys st \<Longrightarrow> shallow_keys (walk pats rel t st)"
proof (induction t arbitrary: rel st)
  case (Dir name ds fs)
  show ?case
  proof (cases "MAX_DEPTH \<le> get_depth (if rel = ''.'' then [] else rel)")
    case True
    then show ?thesis
      using Dir.prems(2) by (simp add: walk_deep)
  next
    case False
    let ?rp = "if rel = ''.'' then [] else rel"
    have files: "shallow_keys (fold (visit_file pats ?rp) fs st)"
    proof (rule fold_preserves [where P = shallow_keys])
      show "shallow_keys st" by (rule Dir.prems(2))
    next
      fix f s
      assume "f \<in> set fs" and "shallow_keys s"
      with Dir.prems(1) False show "shallow_keys (visit_file pats ?rp f s)"
        by (intro visit_file_shallow) auto
    qed
    have "shallow_keys
            (fold (\<lambda>d. walk pats (child_rel rel (dir_name d)) d)
               (filter (\<lambda>d. \<not> is_ignored (child_rel rel (dir_name d)) pats) (remove_git ds))
               (fold (visit_file pats ?rp) fs st))"
    proof (rule fold_preserves [where P = shallow_keys])
      show "shallow_keys (fold (visit_file pats ?rp) fs st)" by (rule files)
    next
      fix d s
      assume d: "d \<in> set (filter (\<lambda>d. \<not> is_ignored (child_rel rel (dir_name d)) pats)
                             (remove_git ds))"
        and s: "shallow_keys s"
      from d have "d \<in> set ds"
        using set_remove_git by auto
      with Dir.prems(1) s show "shallow_keys (walk pats (child_rel rel (dir_name d)) d s)"
        by (intro Dir.IH) auto
    qed
    with False show ?thesis
      by (simp add: walk_Dir)
  qed
qed

lemma generate_deep_key:
  assumes "files_wf repo" and "generate_file_tree_and_content repo = Inr snapshot"
    and "3 \<le> get_depth k"
  shows "snapshot k = None"
proof -
  from assms(2) obtain pats where "snapshot = repo_data (walk pats ''.'' repo initial)"
    by (auto simp: generate_file_tree_and_content_def split: sum.splits)
  moreover have "shallow_keys (walk pats ''.'' repo initial)"
    using assms(1) by (intro walk_shallow_keys) (simp_all add: shallow_keys_def initial_def)
  ultimately show ?thesis
    using assms(3) by (fastforce simp: shallow_keys_def dom_def)
qed

lemma depth_examples:
  "get_depth [] = 1 \<and> get_depth ''a'' = 1 \<and> get_depth ''a/b'' = 2 \<and> get_depth ''a/b/c.txt'' = 3"
  by code_simp

lemma not_ignored_examples:
  "\<not> is_ignored ''README.md'' [] \<and> \<not> is_ignored ''a'' [] \<and> \<not> is_ignored ''a/x.txt'' [] \<and>
   \<not> is_ignored ''a/b'' []"
  by code_simp

lemma path_join_examples:
  "path_join [] ''README.md'' = ''README.md'' \<and> path_join ''a'' ''x.txt'' = ''a/x.txt''"
  by code_simp

lemma walk_repo_nested:
  "repo_data (walk [] ''.'' repo_nested initial) =
     [''README.md'' \<mapsto> ''hi\<newline>'', ''a/x.txt'' \<mapsto> ''x\<newline>y'']"
  using depth_examples not_ignored_examples path_join_examples
  by (simp add: repo_nested_def walk_Dir MAX_DEPTH_def child_rel_def visit_file_def
        try_block_def Let_def MAX_BYTES_def MAX_LINES_def initial_def sep_def)

text \<open>
  Claim C2. With \<^verbatim>\<open>MAX_DEPTH = 2\<close>, whatever the ignore patterns are, no key of the
  returned dictionary has depth 3 or more (so \<^verbatim>\<open>a/b/c.txt\<close>, of depth 3, is never a
  key), for every repository whose file names are names of directory entries; and the
  walk of a directory whose relative depth is at least \<^verbatim>\<open>MAX_DEPTH\<close>, subdirectories
  included, leaves the dictionary as it was.
\<close>

theorem depth_pruning:
  "MAX_DEPTH = 2 \<and> get_depth ''a/b/c.txt'' = 3 \<and>
   (files_wf repo \<and> generate_file_tree_and_content repo = Inr snapshot \<and> 3 \<le> get_depth k
      \<longrightarrow> snapshot k = None) \<and>
   (MAX_DEPTH \<le> get_depth (if rel = ''.'' then [] else rel)
      \<longrightarrow> repo_data (walk pats rel t st) = repo_data st)"
proof -
  have a: "MAX_DEPTH = 2"
    by (simp add: MAX_DEPTH_def)
  have b: "get_depth ''a/b/c.txt'' = 3"
    using depth_examples by simp
  have c: "files_wf repo \<and> generate_file_tree_and_content repo = Inr snapshot \<and> 3 \<le> get_depth k
      \<longrightarrow> snapshot k = None"
    using generate_deep_key by blast
  have d: "MAX_DEPTH \<le> get_depth (if rel = ''.'' then [] else rel)
      \<longrightarrow> repo_data (walk pats rel t st) = repo_data st"
    by (simp add: walk_deep)
  from a b c d show ?thesis by blast
qed

theorem depth_pruning_witness:
  "files_wf repo_nested \<and>
   generate_file_tree_and_content repo_nested =
     Inr [''README.md'' \<mapsto> ''hi\<newline>'', ''a/x.txt'' \<mapsto> ''x\<newline>y''] \<and>
   3 \<le> get_depth ''a/b/c.txt'' \<and>
   [''README.md'' \<mapsto> ''hi\<newline>'', ''a/x.txt'' \<mapsto> ''x\<newline>y''] ''a/b/c.txt'' = None \<and>
   MAX_DEPTH \<le> get_depth (if ''a/b'' = ''.'' then [] else ''a/b'') \<and>
   repo_data (walk [] ''a/b'' (Dir ''b'' [] [\<lparr>file_name = ''c.txt'', getsize = Inr 2,
                 readlines = Inr [''c\<newline>'']\<rparr>]) initial) = repo_data initial"
proof -
  have a: "files_wf repo_nested"
    by (simp add: repo_nested_def sep_def)
  have "load_gitignore repo_nested = Inr []"
    by (simp add: load_gitignore_def gitignore_exists_def repo_nested_def)
  then have b: "generate_file_tree_and_content repo_nested =
     Inr [''README.md'' \<mapsto> ''hi\<newline>'', ''a/x.txt'' \<mapsto> ''x\<newline>y'']"
    by (simp add: generate_file_tree_and_content_def walk_repo_nested)
  have c: "3 \<le> get_depth ''a/b/c.txt''"
    using depth_examples by simp
  have d: "MAX_DEPTH \<le> get_depth (if ''a/b'' = ''.'' then [] else ''a/b'')"
    using depth_examples by (simp add: MAX_DEPTH_def)
  note inst = depth_pruning [of repo_nested "[''README.md'' \<mapsto> ''hi\<newline>'', ''a/x.txt'' \<mapsto> ''x\<newline>y'']"
      "''a/b/c.txt''" "''a/b''" "[]"
      "Dir ''b'' [] [\<lparr>file_name = ''c.txt'', getsize = Inr 2, readlines = Inr [''c\<newline>'']\<rparr>]"
      initial]
  from inst a b c have e: "[''README.md'' \<mapsto> ''hi\<newline>'', ''a/x.txt'' \<mapsto> ''x\<newline>y''] ''a/b/c.txt'' = None"
    by blast
  from inst d have f: "repo_data (walk [] ''a/b'' (Dir ''b'' [] [\<lparr>file_name = ''c.txt'', getsize = Inr 2,
                 readlines = Inr [''c\<newline>'']\<rparr>]) initial) = repo_data initial"
    by blast
  from a b c d e f show ?thesis by blast
qed

section \<open>Read errors\<close>

subsection \<open>Files whose reading fails\<close>

lemma visit_file_fails:
  "read_fails f \<Longrightarrow> repo_data (visit_file pats rp f st) = repo_data st"
  by (simp add: visit_file_repo_data)

lemma read_fails_try_block: "read_fails f \<longleftrightarrow> snd (try_block p f st) \<noteq> None"
  by (auto simp: read_fails_def try_block_def Let_def split: sum.splits)

lemma visit_file_same_data:
  "repo_data st = repo_data st' \<Longrightarrow>
   repo_data (visit_file pats rp f st) = repo_data (visit_file pats rp f st')"
  by (simp add: visit_file_repo_data)

lemma fold_visit_file_drop:
  "repo_data st = repo_data st' \<Longrightarrow>
   repo_data (fold (visit_file pats rp) (filter (\<lambda>f. \<not> read_fails f) fs) st) =
   repo_data (fold (visit_file pats rp) fs st')"
proof (induction fs arbitrary: st st')
  case Nil
  then show ?case by simp
next
  case (Cons f fs)
  show ?case
  proof (cases "read_fails f")
    case True
    with Cons.prems have "repo_data st = repo_data (visit_file pats rp f st')"
      by (simp add: visit_file_fails)
    with True show ?thesis
      using Cons.IH by simp
  next
    case False
    from Cons.prems
    have "repo_data (visit_file pats rp f st) = repo_data (visit_file pats rp f st')"
      by (rule visit_file_same_data)
    with False show ?thesis
      using Cons.IH by simp
  qed
qed

lemma dir_name_drop_failing: "dir_name (drop_failing d) = dir_name d"
  by (cases d) simp

lemma remove_git_drop_failing:
  "remove_git (map drop_failing ds) = map drop_failing (remove_git ds)"
  by (induction ds) (simp_all add: dir_name_drop_failing)

lemma walk_drop_failing:
  "repo_data st = repo_data st' \<Longrightarrow>
   repo_data (walk pats rel (drop_failing t) st) = repo_data (walk pats rel t st')"
proof (induction t arbitrary: rel st st')
  case (Dir name ds fs)
  let ?rp = "if rel = ''.'' then [] else rel"
  let ?keep = "\<lambda>d. \<not> is_ignored (child_rel rel (dir_name d)) pats"
  show ?case
  proof (cases "MAX_DEPTH \<le> get_depth ?rp")
    case True
    then show ?thesis
      using Dir.prems by (simp add: walk_deep)
  next
    case False
    have files: "repo_data (fold (visit_file pats ?rp) (filter (\<lambda>f. \<not> read_fails f) fs) st) =
                 repo_data (fold (visit_file pats ?rp) fs st')"
      using Dir.prems by (rule fold_visit_file_drop)
    have dirs: "filter ?keep (remove_git (map drop_failing ds)) =
                map drop_failing (filter ?keep (remove_git ds))"
      by (simp add: remove_git_drop_failing filter_map comp_def dir_name_drop_failing)
    have "repo_data
            (fold (\<lambda>d. walk pats (child_rel rel (dir_name d)) (drop_failing d))
               (filter ?keep (remove_git ds))
               (fold (visit_file pats ?rp) (filter (\<lambda>f. \<not> read_fails f) fs) st)) =
          repo_data
            (fold (\<lambda>d. walk pats (child_rel rel (dir_name d)) d)
               (filter ?keep (remove_git ds))
               (fold (visit_file pats ?rp) fs st'))"
    proof (rule fold_related [where R = "\<lambda>s s' :: state. repo_data s = repo_data s'"])
      show "repo_data (fold (visit_file pats ?rp) (filter (\<lambda>f. \<not> read_fails f) fs) st) =
            repo_data (fold (visit_file pats ?rp) fs st')"
        by (rule files)
    next
      fix d and s s' :: state
      assume "d \<in> set (filter ?keep (remove_git ds))" and "repo_data s = repo_data s'"
      moreover from this have "d \<in> set ds"
        using set_remove_git by auto
      ultimately show "repo_data (walk pats (child_rel rel (dir_name d)) (drop_failing d) s) =
                       repo_data (walk pats (child_rel rel (dir_name d)) d s')"
        by (intro Dir.IH)
    qed
    with False show ?thesis
      by (simp add: walk_Dir dirs fold_map comp_def dir_name_drop_failing)
  qed
qed

subsection \<open>Where an entry comes from\<close>

lemma file_gives_not_fails: "file_gives f content \<Longrightarrow> \<not> read_fails f"
  by (auto simp: file_gives_def read_fails_def split: sum.splits)

lemma visit_file_sound:
  assumes "repo_data (visit_file pats rp f st) k = Some c"
  shows "repo_data st k = Some c \<or>
         (k = path_join rp (file_name f) \<and> \<not> is_ignored k pats \<and> \<not> read_fails f \<and> file_gives f c)"
  using assms by (auto simp: visit_file_repo_data split: if_splits)

section \<open>The entries of the snapshot\<close>

subsection \<open>Paths of the files of one directory\<close>

lemma path_join_root: "sep \<notin> set n \<Longrightarrow> path_join [] n = n"
  by (cases n) (auto simp: path_join_def startswith_def)

lemma path_join_dir:
  "sep \<notin> set n \<Longrightarrow> sep \<notin> set rp \<Longrightarrow> rp \<noteq> [] \<Longrightarrow> path_join rp n = rp @ [sep] @ n"
  by (cases n) (auto simp: path_join_def startswith_def endswith_def suffix_def)

lemma path_join_inject:
  "sep \<notin> set n \<Longrightarrow> sep \<notin> set n' \<Longrightarrow> sep \<notin> set rp \<Longrightarrow>
   path_join rp n = path_join rp n' \<longleftrightarrow> n = n'"
  by (cases "rp = []") (auto simp: path_join_root path_join_dir)

lemma sep_split_unique:
  "sep \<notin> set a \<Longrightarrow> sep \<notin> set a' \<Longrightarrow> a @ sep # b = a' @ sep # b' \<Longrightarrow> a = a' \<and> b = b'"
proof (induction a arbitrary: a')
  case Nil
  then show ?case by (cases a') auto
next
  case (Cons x a)
  then show ?case by (cases a') auto
qed

subsection \<open>Folds in which one step decides the value\<close>

lemma fold_decided:
  assumes "x \<in> set xs"
    and "\<And>y s. y \<in> set xs \<Longrightarrow> y \<noteq> x \<Longrightarrow> g (step y s) = g s"
    and "\<And>s. g (step x s) = v"
  shows "g (fold step xs st) = v"
  using assms
proof (induction xs arbitrary: st)
  case Nil
  then show ?case by simp
next
  case (Cons y ys)
  show ?case
  proof (cases "x \<in> set ys")
    case True
    then show ?thesis
      using Cons.IH Cons.prems(2,3) by simp
  next
    case False
    with Cons.prems(1) have xy: "y = x"
      by simp
    have "g (fold step ys (step x st)) = g (step x st)"
    proof (rule fold_preserves [where P = "\<lambda>s. g s = g (step x st)"])
      show "g (step x st) = g (step x st)" by simp
    next
      fix z s
      assume "z \<in> set ys" and "g s = g (step x st)"
      moreover from this False have "z \<noteq> x" by auto
      ultimately show "g (step z s) = g (step x st)"
        using Cons.prems(2) by simp
    qed
    with xy Cons.prems(3) show ?thesis
      by simp
  qed
qed

lemma fold_untouched:
  assumes "\<And>y s. y \<in> set xs \<Longrightarrow> g (step y s) = g s"
  shows "g (fold step xs st) = g st"
  by (rule fold_preserves [where P = "\<lambda>s. g s = g st"]) (simp_all add: assms)

subsection \<open>The files of one directory\<close>

lemma file_gives_content:
  "file_gives f c \<Longrightarrow> \<not> read_fails f \<and> c = concat (projr (readlines f))"
  by (auto simp: file_gives_def read_fails_def split: sum.splits)

lemma visit_file_other:
  "k \<noteq> path_join rp (file_name f) \<Longrightarrow> repo_data (visit_file pats rp f st) k = repo_data st k"
  by (simp add: visit_file_repo_data)

lemma visit_file_gives:
  "\<not> is_ignored (path_join rp (file_name f)) pats \<Longrightarrow> file_gives f c \<Longrightarrow>
   repo_data (visit_file pats rp f st) (path_join rp (file_name f)) = Some c"
  using file_gives_content [of f c] by (simp add: visit_file_repo_data)

lemma files_fold_other:
  assumes "\<forall>f \<in> set fs. path_join rp (file_name f) \<noteq> k"
  shows "repo_data (fold (visit_file pats rp) fs st) k = repo_data st k"
proof (rule fold_untouched [where g = "\<lambda>s. repo_data s k"])
  fix y and s :: state
  assume "y \<in> set fs"
  with assms have "k \<noteq> path_join rp (file_name y)"
    by blast
  then show "repo_data (visit_file pats rp y s) k = repo_data s k"
    by (rule visit_file_other)
qed

lemma files_fold_gives:
  assumes "distinct (map file_name fs)" and "\<forall>f \<in> set fs. sep \<notin> set (file_name f)"
    and "sep \<notin> set rp" and "f \<in> set fs"
    and "\<not> is_ignored (path_join rp (file_name f)) pats" and "file_gives f c"
  shows "repo_data (fold (visit_file pats rp) fs st) (path_join rp (file_name f)) = Some c"
proof (rule fold_decided [where g = "\<lambda>s. repo_data s (path_join rp (file_name f))" and x = f])
  show "f \<in> set fs" by (rule assms(4))
next
  fix y and s :: state
  assume y: "y \<in> set fs" "y \<noteq> f"
  with assms(1,4) have "file_name y \<noteq> file_name f"
    by (meson distinct_map inj_onD)
  with y assms(2,3,4) have "path_join rp (file_name f) \<noteq> path_join rp (file_name y)"
    by (simp add: path_join_inject)
  then show "repo_data (visit_file pats rp y s) (path_join rp (file_name f)) =
             repo_data s (path_join rp (file_name f))"
    by (rule visit_file_other)
next
  fix s :: state
  show "repo_data (visit_file pats rp f s) (path_join rp (file_name f)) = Some c"
    using assms(5,6) by (rule visit_file_gives)
qed

subsection \<open>The two levels of the walk\<close>

lemma get_depth_no_sep: "sep \<notin> set s \<Longrightarrow> get_depth s = 1"
  by (simp add: get_depth_count count_list_0_iff)

lemma walk_level1:
  assumes "rel \<noteq> ''.''" and "get_depth rel < MAX_DEPTH"
  shows "walk pats rel (Dir name ds fs) st = fold (visit_file pats rel) fs st"
proof -
  let ?S = "fold (visit_file pats rel) fs st"
  have deep: "MAX_DEPTH \<le> get_depth (if child_rel rel x = ''.'' then [] else child_rel rel x)" for x
  proof -
    from assms(1) have c: "child_rel rel x = rel @ [sep] @ x"
      by (simp add: child_rel_def)
    then have "child_rel rel x \<noteq> ''.''"
      by (cases rel) (auto simp: sep_def)
    with c show ?thesis
      by (simp add: MAX_DEPTH_def get_depth_count count_list_append)
  qed
  have "fold (\<lambda>d. walk pats (child_rel rel (dir_name d)) d)
          (filter (\<lambda>d. \<not> is_ignored (child_rel rel (dir_name d)) pats) (remove_git ds)) ?S = ?S"
    by (rule fold_preserves [where P = "\<lambda>s. s = ?S"]) (simp_all add: walk_deep deep)
  with assms show ?thesis
    by (simp add: walk_Dir)
qed

lemma walk_root:
  "walk pats ''.'' (Dir name ds fs) st =
     fold (\<lambda>d. walk pats (dir_name d) d)
       (filter (\<lambda>d. \<not> is_ignored (dir_name d) pats) (remove_git ds))
       (fold (visit_file pats []) fs st)"
  by (simp add: walk_Dir child_rel_def MAX_DEPTH_def get_depth_count)

lemma walk_subdir:
  assumes "dir_name d \<noteq> ''.''" and "sep \<notin> set (dir_name d)"
  shows "walk pats (dir_name d) d st = fold (visit_file pats (dir_name d)) (files d) st"
proof (cases d)
  case (Dir name ds fs)
  with assms show ?thesis
    by (simp add: walk_level1 get_depth_no_sep MAX_DEPTH_def)
qed

lemma remove_git_distinct:
  "distinct (map dir_name ds) \<Longrightarrow>
   set (remove_git ds) = {d \<in> set ds. dir_name d \<noteq> ''.git''}"
  by (induction ds) force+

subsection \<open>Which entries the walk of a repository stores\<close>

lemma subdir_key_has_sep:
  assumes "sep \<notin> set (dir_name d)" and "dir_name d \<noteq> []" and "sep \<notin> set (file_name f)"
  shows "path_join (dir_name d) (file_name f) = dir_name d @ [sep] @ file_name f"
  using assms by (simp add: path_join_dir)

lemma walk_present:
  assumes wf: "names_wf repo" and iw: "in_walk repo pats k f"
    and ok: "\<not> is_ignored k pats" and gives: "file_gives f c"
  shows "repo_data (walk pats ''.'' repo st) k = Some c"
proof (cases repo)
  case (Dir name ds fs)
  let ?kept = "filter (\<lambda>d. \<not> is_ignored (dir_name d) pats) (remove_git ds)"
  let ?S = "fold (visit_file pats []) fs st"
  let ?g = "\<lambda>s :: state. repo_data s k"
  from wf Dir have names: "distinct (map file_name fs)" "\<forall>f \<in> set fs. sep \<notin> set (file_name f)"
    and dnames: "distinct (map dir_name ds)"
    and dwf: "\<And>d. d \<in> set ds \<Longrightarrow>
                dir_name d \<noteq> [] \<and> dir_name d \<noteq> ''.'' \<and> sep \<notin> set (dir_name d) \<and> names_wf d"
    by auto
  have kept: "d \<in> set ?kept \<longleftrightarrow>
                d \<in> set ds \<and> dir_name d \<noteq> ''.git'' \<and> \<not> is_ignored (dir_name d) pats" for d
    using remove_git_distinct [OF dnames] by auto
  have wsub: "walk pats (dir_name d) d s = fold (visit_file pats (dir_name d)) (files d) s"
    if "d \<in> set ds" for d s
    using dwf [OF that] by (simp add: walk_subdir)
  have dfiles: "distinct (map file_name (files d)) \<and> (\<forall>f \<in> set (files d). sep \<notin> set (file_name f))"
    if "d \<in> set ds" for d
    using dwf [OF that] by (cases d) auto
  from iw Dir consider
      (root) "f \<in> set fs" "k = file_name f"
    | (sub) d where "d \<in> set ds" "dir_name d \<noteq> ''.git''" "\<not> is_ignored (dir_name d) pats"
        "f \<in> set (files d)" "k = dir_name d @ [sep] @ file_name f"
    by (auto simp: in_walk_def)
  then have "?g (fold (\<lambda>d. walk pats (dir_name d) d) ?kept ?S) = Some c"
  proof cases
    case root
    with names have k: "k = path_join [] (file_name f)" and nosep: "sep \<notin> set k"
      by (simp_all add: path_join_root)
    have "?g ?S = Some c"
      unfolding k using names(1,2) _ root(1) ok [unfolded k] gives
      by (rule files_fold_gives) simp
    moreover have "?g (fold (\<lambda>d. walk pats (dir_name d) d) ?kept ?S) = ?g ?S"
    proof (rule fold_untouched [where g = ?g])
      fix d and s :: state
      assume "d \<in> set ?kept"
      then have d: "d \<in> set ds"
        using kept by blast
      have "\<forall>f' \<in> set (files d). path_join (dir_name d) (file_name f') \<noteq> k"
      proof
        fix f'
        assume "f' \<in> set (files d)"
        with dfiles [OF d] dwf [OF d]
        have "path_join (dir_name d) (file_name f') = dir_name d @ [sep] @ file_name f'"
          by (simp add: path_join_dir)
        with nosep show "path_join (dir_name d) (file_name f') \<noteq> k"
          by auto
      qed
      then show "?g (walk pats (dir_name d) d s) = ?g s"
        by (simp add: wsub [OF d] files_fold_other)
    qed
    ultimately show ?thesis by simp
  next
    case (sub d)
    from sub(4) dfiles [OF sub(1)] dwf [OF sub(1)]
    have k: "k = path_join (dir_name d) (file_name f)"
      by (simp add: sub(5) path_join_dir)
    show ?thesis
    proof (rule fold_decided [where g = ?g and x = d])
      show "d \<in> set ?kept"
        using sub kept by blast
    next
      fix d' and s :: state
      assume d': "d' \<in> set ?kept" "d' \<noteq> d"
      then have d'ds: "d' \<in> set ds"
        using kept by blast
      with d'(2) sub(1) dnames have ne: "dir_name d' \<noteq> dir_name d"
        by (meson distinct_map inj_onD)
      have "\<forall>f' \<in> set (files d'). path_join (dir_name d') (file_name f') \<noteq> k"
      proof
        fix f'
        assume "f' \<in> set (files d')"
        with dfiles [OF d'ds] dwf [OF d'ds]
        have "path_join (dir_name d') (file_name f') = dir_name d' @ sep # file_name f'"
          by (simp add: path_join_dir)
        moreover have "dir_name d' @ sep # file_name f' \<noteq> dir_name d @ sep # file_name f"
          using sep_split_unique [of "dir_name d'" "dir_name d" "file_name f'" "file_name f"]
            dwf [OF d'ds] dwf [OF sub(1)] ne by blast
        ultimately show "path_join (dir_name d') (file_name f') \<noteq> k"
          by (simp add: sub(5))
      qed
      then show "?g (walk pats (dir_name d') d' s) = ?g s"
        by (simp add: wsub [OF d'ds] files_fold_other)
    next
      fix s :: state
      have "repo_data (fold (visit_file pats (dir_name d)) (files d) s)
              (path_join (dir_name d) (file_name f)) = Some c"
        using dfiles [OF sub(1)] dwf [OF sub(1)] sub(4) ok [unfolded k] gives
        by (intro files_fold_gives) auto
      then show "?g (walk pats (dir_name d) d s) = Some c"
        by (simp add: wsub [OF sub(1)] k)
    qed
  qed
  with Dir show ?thesis
    by (simp add: walk_root)
qed

lemma walk_only:
  assumes wf: "names_wf repo" and stored: "repo_data (walk pats ''.'' repo st) k = Some c"
  shows "repo_data st k = Some c \<or>
         (\<exists>f. in_walk repo pats k f \<and> \<not> is_ignored k pats \<and> file_gives f c)"
proof (cases repo)
  case (Dir name ds fs)
  let ?kept = "filter (\<lambda>d. \<not> is_ignored (dir_name d) pats) (remove_git ds)"
  let ?S = "fold (visit_file pats []) fs st"
  let ?Q = "\<exists>f. in_walk repo pats k f \<and> \<not> is_ignored k pats \<and> file_gives f c"
  let ?P = "\<lambda>s :: state. repo_data s k = Some c \<longrightarrow> repo_data st k = Some c \<or> ?Q"
  from wf Dir have names: "\<forall>f \<in> set fs. sep \<notin> set (file_name f)"
    and dnames: "distinct (map dir_name ds)"
    and dwf: "\<And>d. d \<in> set ds \<Longrightarrow>
                dir_name d \<noteq> [] \<and> dir_name d \<noteq> ''.'' \<and> sep \<notin> set (dir_name d) \<and> names_wf d"
    by auto
  have kept: "d \<in> set ?kept \<longleftrightarrow>
                d \<in> set ds \<and> dir_name d \<noteq> ''.git'' \<and> \<not> is_ignored (dir_name d) pats" for d
    using remove_git_distinct [OF dnames] by auto
  have root: "?P ?S"
  proof (rule fold_preserves [where P = ?P])
    show "?P st" by simp
  next
    fix f and s :: state
    assume f: "f \<in> set fs" and s: "?P s"
    show "?P (visit_file pats [] f s)"
    proof
      assume "repo_data (visit_file pats [] f s) k = Some c"
      then consider "repo_data s k = Some c"
        | "k = path_join [] (file_name f)" "\<not> is_ignored k pats" "file_gives f c"
        using visit_file_sound by blast
      then show "repo_data st k = Some c \<or> ?Q"
      proof cases
        case 1
        with s show ?thesis by simp
      next
        case 2
        with f names have "in_walk repo pats k f"
          by (simp add: in_walk_def Dir path_join_root)
        with 2 show ?thesis by blast
      qed
    qed
  qed
  have "?P (fold (\<lambda>d. walk pats (dir_name d) d) ?kept ?S)"
  proof (rule fold_preserves [where P = ?P])
    show "?P ?S" by (rule root)
  next
    fix d and s :: state
    assume "d \<in> set ?kept" and s: "?P s"
    then have d: "d \<in> set ds" "dir_name d \<noteq> ''.git''" "\<not> is_ignored (dir_name d) pats"
      using kept by blast+
    from dwf [OF d(1)] have dfiles: "\<forall>f \<in> set (files d). sep \<notin> set (file_name f)"
      by (cases d) auto
    have "?P (fold (visit_file pats (dir_name d)) (files d) s)"
    proof (rule fold_preserves [where P = ?P])
      show "?P s" by (rule s)
    next
      fix f and s' :: state
      assume f: "f \<in> set (files d)" and s': "?P s'"
      show "?P (visit_file pats (dir_name d) f s')"
      proof
        assume "repo_data (visit_file pats (dir_name d) f s') k = Some c"
        then consider "repo_data s' k = Some c"
          | "k = path_join (dir_name d) (file_name f)" "\<not> is_ignored k pats" "file_gives f c"
          using visit_file_sound by blast
        then show "repo_data st k = Some c \<or> ?Q"
        proof cases
          case 1
          with s' show ?thesis by simp
        next
          case 2
          from f dfiles dwf [OF d(1)] 2(1) have "k = dir_name d @ [sep] @ file_name f"
            by (simp add: path_join_dir)
          with f d have "in_walk repo pats k f"
            unfolding in_walk_def Dir by auto
          with 2 show ?thesis by blast
        qed
      qed
    qed
    with dwf [OF d(1)] show "?P (walk pats (dir_name d) d s)"
      by (simp add: walk_subdir)
  qed
  with stored Dir show ?thesis
    by (simp add: walk_root)
qed

lemma in_walk_unique:
  assumes wf: "names_wf repo" and a: "in_walk repo pats k f" and b: "in_walk repo pats k f'"
  shows "f = f'"
proof (cases repo)
  case (Dir name ds fs)
  from wf Dir have names: "distinct (map file_name fs)" "\<forall>f \<in> set fs. sep \<notin> set (file_name f)"
    and dnames: "distinct (map dir_name ds)"
    and dwf: "\<And>d. d \<in> set ds \<Longrightarrow>
                dir_name d \<noteq> [] \<and> dir_name d \<noteq> ''.'' \<and> sep \<notin> set (dir_name d) \<and> names_wf d"
    by auto
  have dfiles: "distinct (map file_name (files d)) \<and> (\<forall>f \<in> set (files d). sep \<notin> set (file_name f))"
    if "d \<in> set ds" for d
    using dwf [OF that] by (cases d) auto
  from a Dir consider
      (root) "f \<in> set fs" "k = file_name f"
    | (sub) d where "d \<in> set ds" "f \<in> set (files d)" "k = dir_name d @ sep # file_name f"
    by (auto simp: in_walk_def)
  then show ?thesis
  proof cases
    case root
    with names have nosep: "sep \<notin> set k"
      by simp
    from b Dir nosep have "f' \<in> set fs" "k = file_name f'"
      by (auto simp: in_walk_def)
    with root names(1) show ?thesis
      by (metis distinct_map inj_onD)
  next
    case (sub d)
    then have hassep: "sep \<in> set k"
      by simp
    from b Dir names hassep obtain d' where d': "d' \<in> set ds" "f' \<in> set (files d')"
      "k = dir_name d' @ sep # file_name f'"
      by (auto simp: in_walk_def)
    with sub dwf [OF sub(1)] dwf [OF d'(1)]
    have eq: "dir_name d = dir_name d' \<and> file_name f = file_name f'"
      using sep_split_unique [of "dir_name d" "dir_name d'" "file_name f" "file_name f'"]
      by simp
    with sub(1) d'(1) dnames have "d = d'"
      by (metis distinct_map inj_onD)
    with eq sub(2) d'(2) dfiles [OF sub(1)] show ?thesis
      by (metis distinct_map inj_onD)
  qed
qed

lemma generate_entries:
  assumes "names_wf repo" and "load_gitignore repo = Inr pats"
  shows "\<exists>snapshot. generate_file_tree_and_content repo = Inr snapshot \<and>
           (\<forall>k c. snapshot k = Some c \<longleftrightarrow>
                    (\<exists>f. in_walk repo pats k f \<and> \<not> is_ignored k pats \<and> file_gives f c))"
proof -
  let ?snap = "repo_data (walk pats ''.'' repo initial)"
  from assms(2) have "generate_file_tree_and_content repo = Inr ?snap"
    by (simp add: generate_file_tree_and_content_def)
  moreover have "?snap k = Some c \<longleftrightarrow>
                   (\<exists>f. in_walk repo pats k f \<and> \<not> is_ignored k pats \<and> file_gives f c)" for k c
  proof
    assume "?snap k = Some c"
    from walk_only [OF assms(1) this]
    show "\<exists>f. in_walk repo pats k f \<and> \<not> is_ignored k pats \<and> file_gives f c"
      by (simp add: initial_def)
  next
    assume "\<exists>f. in_walk repo pats k f \<and> \<not> is_ignored k pats \<and> file_gives f c"
    then show "?snap k = Some c"
      using walk_present [OF assms(1)] by blast
  qed
  ultimately show ?thesis by blast
qed

subsection \<open>What the walk reads\<close>

lemma walk_invariant:
  assumes wf: "names_wf repo" and start: "P st"
    and root: "\<And>f s. f \<in> set (files repo) \<Longrightarrow> P s \<Longrightarrow> P (visit_file pats [] f s)"
    and sub: "\<And>d f s. d \<in> set (subdirs repo) \<Longrightarrow> dir_name d \<noteq> ''.git'' \<Longrightarrow>
                \<not> is_ignored (dir_name d) pats \<Longrightarrow> f \<in> set (files d) \<Longrightarrow> P s \<Longrightarrow>
                P (visit_file pats (dir_name d) f s)"
  shows "P (walk pats ''.'' repo st)"
proof (cases repo)
  case (Dir name ds fs)
  let ?kept = "filter (\<lambda>d. \<not> is_ignored (dir_name d) pats) (remove_git ds)"
  let ?S = "fold (visit_file pats []) fs st"
  from wf Dir have dnames: "distinct (map dir_name ds)"
    and dwf: "\<And>d. d \<in> set ds \<Longrightarrow>
                dir_name d \<noteq> [] \<and> dir_name d \<noteq> ''.'' \<and> sep \<notin> set (dir_name d) \<and> names_wf d"
    by auto
  have kept: "d \<in> set ?kept \<longleftrightarrow>
                d \<in> set ds \<and> dir_name d \<noteq> ''.git'' \<and> \<not> is_ignored (dir_name d) pats" for d
    using remove_git_distinct [OF dnames] by auto
  have "P ?S"
    by (rule fold_preserves [where P = P]) (use start root Dir in auto)
  then have "P (fold (\<lambda>d. walk pats (dir_name d) d) ?kept ?S)"
  proof (rule fold_preserves [where P = P])
    fix d and s :: state
    assume "d \<in> set ?kept" and s: "P s"
    then have d: "d \<in> set ds" "dir_name d \<noteq> ''.git''" "\<not> is_ignored (dir_name d) pats"
      using kept by blast+
    have "P (fold (visit_file pats (dir_name d)) (files d) s)"
      by (rule fold_preserves [where P = P]) (use s sub d Dir in auto)
    with dwf [OF d(1)] show "P (walk pats (dir_name d) d s)"
      by (simp add: walk_subdir)
  qed
  with Dir show ?thesis
    by (simp add: walk_root)
qed

lemma visit_file_reads:
  assumes "ReadLines k \<in> set (events (visit_file pats rp f st))"
  shows "ReadLines k \<in> set (events st) \<or>
         (k = path_join rp (file_name f) \<and> \<not> is_ignored k pats \<and>
          (\<exists>n. getsize f = Inr n \<and> n \<le> MAX_BYTES))"
  using assms
  by (auto simp: visit_file_def try_block_def Let_def split: if_splits sum.splits)

lemma walk_reads:
  assumes wf: "names_wf repo" and r: "ReadLines k \<in> set (events (walk pats ''.'' repo st))"
  shows "ReadLines k \<in> set (events st) \<or>
         (\<exists>f n. in_walk repo pats k f \<and> \<not> is_ignored k pats \<and> getsize f = Inr n \<and> n \<le> MAX_BYTES)"
proof -
  let ?Q = "\<exists>f n. in_walk repo pats k f \<and> \<not> is_ignored k pats \<and> getsize f = Inr n \<and> n \<le> MAX_BYTES"
  let ?P = "\<lambda>s :: state. ReadLines k \<in> set (events s) \<longrightarrow> ReadLines k \<in> set (events st) \<or> ?Q"
  have "?P (walk pats ''.'' repo st)"
  proof (rule walk_invariant [OF wf, where P = ?P])
    show "?P st" by simp
  next
    fix f and s :: state
    assume f: "f \<in> set (files repo)" and s: "?P s"
    from wf f have "sep \<notin> set (file_name f)"
      by (cases repo) auto
    then have "path_join [] (file_name f) = file_name f"
      by (rule path_join_root)
    with f have "in_walk repo pats (path_join [] (file_name f)) f"
      by (simp add: in_walk_def)
    with s show "?P (visit_file pats [] f s)"
      using visit_file_reads by blast
  next
    fix d f and s :: state
    assume d: "d \<in> set (subdirs repo)" "dir_name d \<noteq> ''.git''" "\<not> is_ignored (dir_name d) pats"
      and f: "f \<in> set (files d)" and s: "?P s"
    from wf d(1) have dn: "dir_name d \<noteq> []" "sep \<notin> set (dir_name d)" and "names_wf d"
      by (cases repo; auto)+
    with f have "sep \<notin> set (file_name f)"
      by (cases d) auto
    with dn have "path_join (dir_name d) (file_name f) = dir_name d @ [sep] @ file_name f"
      by (simp add: path_join_dir)
    with d f have "in_walk repo pats (path_join (dir_name d) (file_name f)) f"
      unfolding in_walk_def by auto
    with s show "?P (visit_file pats (dir_name d) f s)"
      using visit_file_reads by blast
  qed
  with r show ?thesis by simp
qed

lemma length_concat_replicate: "length (concat (replicate n xs)) = n * length xs"
  by (induction n) simp_all

lemma fold_reaches:
  assumes "x \<in> set xs" and "\<And>s. Q (step x s)"
    and "\<And>y s. y \<in> set xs \<Longrightarrow> Q s \<Longrightarrow> Q (step y s)"
  shows "Q (fold step xs st)"
  using assms
proof (induction xs arbitrary: st)
  case Nil
  then show ?case by simp
next
  case (Cons y ys)
  show ?case
  proof (cases "x \<in> set ys")
    case True
    then show ?thesis
      using Cons.IH Cons.prems(2,3) by simp
  next
    case False
    with Cons.prems(1) have "y = x" by simp
    then have "Q (step y st)"
      using Cons.prems(2) by simp
    then have "Q (fold step ys (step y st))"
      by (rule fold_preserves) (use Cons.prems(3) in auto)
    then show ?thesis by simp
  qed
qed

lemma visit_file_keeps_events:
  "e \<in> set (events st) \<Longrightarrow> e \<in> set (events (visit_file pats rp f st))"
  by (auto simp: visit_file_def try_block_def Let_def split: sum.splits)

lemma visit_file_reads_content:
  "\<not> is_ignored (path_join rp (file_name f)) pats \<Longrightarrow> getsize f = Inr n \<Longrightarrow> n \<le> MAX_BYTES \<Longrightarrow>
   ReadLines (path_join rp (file_name f)) \<in> set (events (visit_file pats rp f st))"
  by (auto simp: visit_file_def try_block_def Let_def split: sum.splits)

lemma walk_reads_content:
  assumes wf: "names_wf repo" and iw: "in_walk repo pats k f" and ok: "\<not> is_ignored k pats"
    and size: "getsize f = Inr n" "n \<le> MAX_BYTES"
  shows "ReadLines k \<in> set (events (walk pats ''.'' repo st))"
proof (cases repo)
  case (Dir name ds fs)
  let ?kept = "filter (\<lambda>d. \<not> is_ignored (dir_name d) pats) (remove_git ds)"
  let ?S = "fold (visit_file pats []) fs st"
  let ?Q = "\<lambda>s :: state. ReadLines k \<in> set (events s)"
  from wf Dir have names: "\<forall>f \<in> set fs. sep \<notin> set (file_name f)"
    and dnames: "distinct (map dir_name ds)"
    and dwf: "\<And>d. d \<in> set ds \<Longrightarrow>
                dir_name d \<noteq> [] \<and> dir_name d \<noteq> ''.'' \<and> sep \<notin> set (dir_name d) \<and> names_wf d"
    by auto
  have kept: "d \<in> set ?kept \<longleftrightarrow>
                d \<in> set ds \<and> dir_name d \<noteq> ''.git'' \<and> \<not> is_ignored (dir_name d) pats" for d
    using remove_git_distinct [OF dnames] by auto
  have keep_files: "?Q (fold (visit_file pats rp) gs s)" if "?Q s" for rp gs and s :: state
    using that by (rule fold_preserves) (simp add: visit_file_keeps_events)
  have keep_dir: "?Q (walk pats (dir_name d) d s)" if "d \<in> set ?kept" "?Q s" for d and s :: state
  proof -
    from that(1) have "d \<in> set ds"
      using kept by blast
    with dwf show ?thesis
      using keep_files [OF that(2)] by (simp add: walk_subdir)
  qed
  from iw Dir consider
      (root) "f \<in> set fs" "k = file_name f"
    | (sub) d where "d \<in> set ds" "dir_name d \<noteq> ''.git''" "\<not> is_ignored (dir_name d) pats"
        "f \<in> set (files d)" "k = dir_name d @ [sep] @ file_name f"
    by (auto simp: in_walk_def)
  then have "?Q (fold (\<lambda>d. walk pats (dir_name d) d) ?kept ?S)"
  proof cases
    case root
    with names have k: "k = path_join [] (file_name f)"
      by (simp add: path_join_root)
    have "?Q ?S"
    proof (rule fold_reaches [where x = f])
      show "f \<in> set fs" by (rule root(1))
    next
      fix s :: state
      show "?Q (visit_file pats [] f s)"
        unfolding k using ok [unfolded k] size by (rule visit_file_reads_content)
    next
      fix y and s :: state
      assume "?Q s"
      then show "?Q (visit_file pats [] y s)"
        by (rule visit_file_keeps_events)
    qed
    then show ?thesis
      by (rule fold_preserves) (use keep_dir in auto)
  next
    case (sub d)
    from dwf [OF sub(1)] sub(4) have "sep \<notin> set (file_name f)"
      by (cases d) auto
    with dwf [OF sub(1)] have k: "k = path_join (dir_name d) (file_name f)"
      by (simp add: sub(5) path_join_dir)
    show ?thesis
    proof (rule fold_reaches [where x = d])
      show "d \<in> set ?kept"
        using sub kept by blast
    next
      fix s :: state
      have "?Q (fold (visit_file pats (dir_name d)) (files d) s)"
      proof (rule fold_reaches [where x = f])
        show "f \<in> set (files d)" by (rule sub(4))
      next
        fix s' :: state
        show "?Q (visit_file pats (dir_name d) f s')"
          unfolding k using ok [unfolded k] size by (rule visit_file_reads_content)
      next
        fix y and s' :: state
        assume "?Q s'"
        then show "?Q (visit_file pats (dir_name d) y s')"
          by (rule visit_file_keeps_events)
      qed
      with dwf [OF sub(1)] show "?Q (walk pats (dir_name d) d s)"
        by (simp add: walk_subdir)
    next
      fix y and s :: state
      assume "y \<in> set ?kept" and "?Q s"
      then show "?Q (walk pats (dir_name y) y s)"
        by (rule keep_dir)
    qed
  qed
  with Dir show ?thesis
    by (simp add: walk_root)
qed

section \<open>Size and line limits\<close>

text \<open>
  Claim C3. For a file in a directory that the loop looks at and that the ignore rules let
  through, in a repository whose collection returns \<open>snapshot\<close>: \<^verbatim>\<open>MAX_BYTES\<close> is 102400 and
  \<^verbatim>\<open>MAX_LINES\<close> is 1000; a file of exactly \<^verbatim>\<open>MAX_BYTES\<close> bytes and exactly \<^verbatim>\<open>MAX_LINES\<close>
  lines is in the snapshot with its text; a file of \<^verbatim>\<open>MAX_BYTES + 1\<close> bytes is not in the
  snapshot and its content is never read during the walk; a file of \<^verbatim>\<open>MAX_LINES + 1\<close> lines
  is not in the snapshot. In general a file that can be read is in the snapshot exactly
  when its size is at most \<^verbatim>\<open>MAX_BYTES\<close> and it has at most \<^verbatim>\<open>MAX_LINES\<close> lines; its
  content is read during the walk exactly when its size is at most \<^verbatim>\<open>MAX_BYTES\<close>; and in
  the visit of the file the size query comes first, followed by the read or, for a file
  that is too large, by the log record alone.
\<close>

theorem size_and_line_ceilings:
  assumes "names_wf repo" and "load_gitignore repo = Inr pats"
    and "in_walk repo pats k f" and "\<not> is_ignored k pats"
    and "generate_file_tree_and_content repo = Inr snapshot"
  shows "MAX_BYTES = 102400 \<and> MAX_LINES = 1000 \<and>
    (getsize f = Inr MAX_BYTES \<and> readlines f = Inr lines \<and> length lines = MAX_LINES \<longrightarrow>
       snapshot k = Some (concat lines)) \<and>
    (getsize f = Inr (MAX_BYTES + 1) \<longrightarrow>
       snapshot k = None \<and> ReadLines k \<notin> set (events (walk pats ''.'' repo initial))) \<and>
    (getsize f = Inr n \<and> n \<le> MAX_BYTES \<and> readlines f = Inr lines \<and>
     length lines = MAX_LINES + 1 \<longrightarrow> snapshot k = None) \<and>
    (getsize f = Inr n \<and> readlines f = Inr lines \<longrightarrow>
       snapshot k =
         (if n \<le> MAX_BYTES \<and> length lines \<le> MAX_LINES then Some (concat lines) else None)) \<and>
    (getsize f = Inr n \<longrightarrow>
       (ReadLines k \<in> set (events (walk pats ''.'' repo initial)) \<longleftrightarrow> n \<le> MAX_BYTES)) \<and>
    (k = path_join rp (file_name f) \<and> getsize f = Inr n \<and> n \<le> MAX_BYTES \<longrightarrow>
       (\<exists>rest. events (visit_file pats rp f st) = events st @ GetSize k # ReadLines k # rest)) \<and>
    (k = path_join rp (file_name f) \<and> getsize f = Inr n \<and> MAX_BYTES < n \<longrightarrow>
       events (visit_file pats rp f st) =
         events st @ [GetSize k, LogInfo (''Skipping large file: '' @ k)])"
proof -
  have a: "MAX_BYTES = 102400" and b: "MAX_LINES = 1000"
    by (simp_all add: MAX_BYTES_def MAX_LINES_def)
  from assms(2,5) have snap: "snapshot = repo_data (walk pats ''.'' repo initial)"
    by (simp add: generate_file_tree_and_content_def)
  have present: "snapshot k = Some c" if "file_gives f c" for c
    unfolding snap using assms(1,3,4) that by (rule walk_present)
  have absent: "snapshot k = None" if "\<And>c. \<not> file_gives f c"
  proof (cases "snapshot k")
    case None
    then show ?thesis .
  next
    case (Some c)
    then have "repo_data (walk pats ''.'' repo initial) k = Some c"
      by (simp add: snap)
    from walk_only [OF assms(1) this]
    obtain f' where "in_walk repo pats k f'" and "file_gives f' c"
      by (auto simp: initial_def)
    with in_walk_unique [OF assms(1,3)] that show ?thesis
      by blast
  qed
  have e: "getsize f = Inr n \<and> readlines f = Inr lines \<longrightarrow>
       snapshot k =
         (if n \<le> MAX_BYTES \<and> length lines \<le> MAX_LINES then Some (concat lines) else None)"
  proof (intro impI, elim conjE)
    assume gs: "getsize f = Inr n" and rl: "readlines f = Inr lines"
    show "snapshot k =
         (if n \<le> MAX_BYTES \<and> length lines \<le> MAX_LINES then Some (concat lines) else None)"
    proof (cases "n \<le> MAX_BYTES \<and> length lines \<le> MAX_LINES")
      case True
      with gs rl have "file_gives f (concat lines)"
        by (simp add: file_gives_def)
      with True show ?thesis
        by (simp add: present)
    next
      case False
      with gs rl have "\<not> file_gives f c" for c
        by (auto simp: file_gives_def)
      with False show ?thesis
        by (simp add: absent)
    qed
  qed
  have reads: "ReadLines k \<in> set (events (walk pats ''.'' repo initial)) \<longleftrightarrow> m \<le> MAX_BYTES"
    if gs: "getsize f = Inr m" for m
  proof
    assume "ReadLines k \<in> set (events (walk pats ''.'' repo initial))"
    from walk_reads [OF assms(1) this]
    obtain f' n' where "in_walk repo pats k f'" and "getsize f' = Inr n'" and "n' \<le> MAX_BYTES"
      by (auto simp: initial_def)
    with in_walk_unique [OF assms(1,3)] gs show "m \<le> MAX_BYTES"
      by fastforce
  next
    assume "m \<le> MAX_BYTES"
    with assms(1,3,4) gs show "ReadLines k \<in> set (events (walk pats ''.'' repo initial))"
      by (intro walk_reads_content)
  qed
  have c: "getsize f = Inr MAX_BYTES \<and> readlines f = Inr lines \<and> length lines = MAX_LINES \<longrightarrow>
       snapshot k = Some (concat lines)"
    by (simp add: present file_gives_def)
  have large: "snapshot k = None" if "getsize f = Inr (MAX_BYTES + 1)"
    using that by (intro absent) (simp add: file_gives_def split: sum.splits)
  have d: "getsize f = Inr (MAX_BYTES + 1) \<longrightarrow>
       snapshot k = None \<and> ReadLines k \<notin> set (events (walk pats ''.'' repo initial))"
    using large reads [of "MAX_BYTES + 1"] by simp
  have g: "getsize f = Inr n \<and> n \<le> MAX_BYTES \<and> readlines f = Inr lines \<and>
     length lines = MAX_LINES + 1 \<longrightarrow> snapshot k = None"
    by (auto intro!: absent simp: file_gives_def)
  have h: "k = path_join rp (file_name f) \<and> getsize f = Inr n \<and> n \<le> MAX_BYTES \<longrightarrow>
       (\<exists>rest. events (visit_file pats rp f st) = events st @ GetSize k # ReadLines k # rest)"
    using assms(4)
    by (auto simp: visit_file_def try_block_def Let_def split: sum.splits)
  have i: "k = path_join rp (file_name f) \<and> getsize f = Inr n \<and> MAX_BYTES < n \<longrightarrow>
       events (visit_file pats rp f st) =
         events st @ [GetSize k, LogInfo (''Skipping large file: '' @ k)]"
    using assms(4) visit_file_large [of k pats rp f n st] by auto
  have r: "getsize f = Inr n \<longrightarrow>
       (ReadLines k \<in> set (events (walk pats ''.'' repo initial)) \<longleftrightarrow> n \<le> MAX_BYTES)"
    using reads by blast
  from a b c d g e r h i show ?thesis
    by (intro conjI)
qed

lemma repo_limits_facts:
  "names_wf repo_limits \<and> load_gitignore repo_limits = Inr [] \<and>
   in_walk repo_limits [] ''at_limits.txt'' file_at_limits \<and>
   in_walk repo_limits [] ''too_large.txt'' file_too_large \<and>
   in_walk repo_limits [] ''too_long.txt'' file_too_long"
  by (simp add: repo_limits_def file_at_limits_def file_too_large_def file_too_long_def
        sep_def load_gitignore_def gitignore_exists_def in_walk_def)

lemma limits_not_ignored:
  "\<not> is_ignored ''at_limits.txt'' [] \<and> \<not> is_ignored ''too_large.txt'' [] \<and>
   \<not> is_ignored ''too_long.txt'' []"
  by code_simp

theorem size_and_line_ceilings_witness:
  "names_wf repo_limits \<and> load_gitignore repo_limits = Inr [] \<and>
   generate_file_tree_and_content repo_limits =
     Inr (repo_data (walk [] ''.'' repo_limits initial)) \<and>
   in_walk repo_limits [] ''at_limits.txt'' file_at_limits \<and>
   \<not> is_ignored ''at_limits.txt'' [] \<and>
   getsize file_at_limits = Inr MAX_BYTES \<and>
   readlines file_at_limits = Inr lines_at_limits \<and>
   length lines_at_limits = MAX_LINES \<and>
   length (concat lines_at_limits) = MAX_BYTES \<and>
   repo_data (walk [] ''.'' repo_limits initial) ''at_limits.txt'' = Some (concat lines_at_limits) \<and>
   in_walk repo_limits [] ''too_large.txt'' file_too_large \<and>
   \<not> is_ignored ''too_large.txt'' [] \<and>
   getsize file_too_large = Inr (MAX_BYTES + 1) \<and>
   repo_data (walk [] ''.'' repo_limits initial) ''too_large.txt'' = None \<and>
   ReadLines ''too_large.txt'' \<notin> set (events (walk [] ''.'' repo_limits initial)) \<and>
   in_walk repo_limits [] ''too_long.txt'' file_too_long \<and>
   \<not> is_ignored ''too_long.txt'' [] \<and>
   getsize file_too_long = Inr 2002 \<and> 2002 \<le> MAX_BYTES \<and>
   readlines file_too_long = Inr (replicate 1001 ''x\<newline>'') \<and>
   length (replicate 1001 ''x\<newline>'') = MAX_LINES + 1 \<and>
   repo_data (walk [] ''.'' repo_limits initial) ''too_long.txt'' = None"
proof -
  have wf: "names_wf repo_limits" and ld: "load_gitignore repo_limits = Inr []"
    and i1: "in_walk repo_limits [] ''at_limits.txt'' file_at_limits"
    and i2: "in_walk repo_limits [] ''too_large.txt'' file_too_large"
    and i3: "in_walk repo_limits [] ''too_long.txt'' file_too_long"
    using repo_limits_facts by blast+
  have n1: "\<not> is_ignored ''at_limits.txt'' []" and n2: "\<not> is_ignored ''too_large.txt'' []"
    and n3: "\<not> is_ignored ''too_long.txt'' []"
    using limits_not_ignored by blast+
  from ld have gen: "generate_file_tree_and_content repo_limits =
      Inr (repo_data (walk [] ''.'' repo_limits initial))"
    by (simp add: generate_file_tree_and_content_def)
  have a1: "getsize file_at_limits = Inr MAX_BYTES"
    and a2: "readlines file_at_limits = Inr lines_at_limits"
    by (simp_all add: file_at_limits_def MAX_BYTES_def)
  have a3: "length lines_at_limits = MAX_LINES"
    by (simp add: lines_at_limits_def MAX_LINES_def)
  have a4: "length (concat lines_at_limits) = MAX_BYTES"
    by (simp add: lines_at_limits_def MAX_BYTES_def length_concat_replicate)
  have b1: "getsize file_too_large = Inr (MAX_BYTES + 1)"
    by (simp add: file_too_large_def MAX_BYTES_def)
  have c1: "getsize file_too_long = Inr 2002" and c2: "2002 \<le> MAX_BYTES"
    and c3: "readlines file_too_long = Inr (replicate 1001 ''x\<newline>'')"
    and c4: "length (replicate 1001 ''x\<newline>'') = MAX_LINES + 1"
    by (simp_all add: file_too_long_def MAX_BYTES_def MAX_LINES_def)
  from size_and_line_ceilings [OF wf ld i1 n1 gen, where lines = lines_at_limits] a1 a2 a3
  have r1: "repo_data (walk [] ''.'' repo_limits initial) ''at_limits.txt'' =
              Some (concat lines_at_limits)"
    by blast
  from size_and_line_ceilings [OF wf ld i2 n2 gen] b1
  have r2: "repo_data (walk [] ''.'' repo_limits initial) ''too_large.txt'' = None \<and>
            ReadLines ''too_large.txt'' \<notin> set (events (walk [] ''.'' repo_limits initial))"
    by blast
  from size_and_line_ceilings [OF wf ld i3 n3 gen,
      where lines = "replicate 1001 ''x\<newline>''" and n = 2002] c1 c2 c3 c4
  have r3: "repo_data (walk [] ''.'' repo_limits initial) ''too_long.txt'' = None"
    by blast
  from wf ld gen i1 n1 a1 a2 a3 a4 r1 i2 n2 b1 r2 i3 n3 c1 c2 c3 c4 r3 show ?thesis
    by (intro conjI) blast+
qed

section \<open>Read errors and the ignore file\<close>

text \<open>
  For the files that the loop looks at, a read error skips the file and nothing else: when
  the ignore file is loaded, the collection returns a dictionary; a file whose reading
  fails is not a key; every file that the rules let through and that is read within the
  limits is a key with its text; and the dictionary is the one of the repository without
  the failing files.
\<close>

lemma visited_read_errors_skipped:
  assumes "names_wf repo" and "load_gitignore repo = Inr pats"
  shows "\<exists>snapshot. generate_file_tree_and_content repo = Inr snapshot \<and>
           snapshot = repo_data (walk pats ''.'' (drop_failing repo) initial) \<and>
           (\<forall>k f. in_walk repo pats k f \<and> read_fails f \<longrightarrow> snapshot k = None) \<and>
           (\<forall>k f c. in_walk repo pats k f \<and> \<not> is_ignored k pats \<and> file_gives f c
                      \<longrightarrow> snapshot k = Some c)"
proof -
  from generate_entries [OF assms] obtain snapshot
    where gen: "generate_file_tree_and_content repo = Inr snapshot"
      and entries: "\<And>k c. snapshot k = Some c \<longleftrightarrow>
                      (\<exists>f. in_walk repo pats k f \<and> \<not> is_ignored k pats \<and> file_gives f c)"
    by blast
  from gen assms(2) have "snapshot = repo_data (walk pats ''.'' repo initial)"
    by (simp add: generate_file_tree_and_content_def)
  moreover have "repo_data (walk pats ''.'' (drop_failing repo) initial) =
                 repo_data (walk pats ''.'' repo initial)"
    by (rule walk_drop_failing) simp
  ultimately have a: "snapshot = repo_data (walk pats ''.'' (drop_failing repo) initial)"
    by simp
  have b: "snapshot k = None" if "in_walk repo pats k f" "read_fails f" for k f
  proof (cases "snapshot k")
    case None
    then show ?thesis .
  next
    case (Some c)
    with entries obtain f' where "in_walk repo pats k f'" and "file_gives f' c"
      by blast
    with in_walk_unique [OF assms(1) that(1)] that(2) file_gives_not_fails show ?thesis
      by blast
  qed
  from gen a b entries show ?thesis
    by blast
qed

text \<open>
  Claim C4. The claim asks for a dictionary whenever reading some file fails. The loader
  of the ignore file opens and reads \<^verbatim>\<open>.gitignore\<close> outside the \<^verbatim>\<open>try\<close> statement: for a
  repository whose ignore file exists and cannot be opened, the exception leaves
  \<^verbatim>\<open>generate_file_tree_and_content\<close> and no dictionary is returned, although another file
  of the repository can be read within the limits.
\<close>

theorem unreadable_ignore_file_raises:
  "gitignore_exists repo_locked_ignore \<and>
   open_gitignore repo_locked_ignore = Inl PermissionError \<and>
   load_gitignore repo_locked_ignore = Inl PermissionError \<and>
   generate_file_tree_and_content repo_locked_ignore = Inl PermissionError \<and>
   in_walk repo_locked_ignore [] ''README.md''
     \<lparr>file_name = ''README.md'', getsize = Inr 3, readlines = Inr [''hi\<newline>'']\<rparr> \<and>
   file_gives \<lparr>file_name = ''README.md'', getsize = Inr 3, readlines = Inr [''hi\<newline>'']\<rparr>
     ''hi\<newline>''"
  by (simp add: repo_locked_ignore_def generate_file_tree_and_content_def load_gitignore_def
        gitignore_exists_def open_gitignore_def in_walk_def file_gives_def MAX_BYTES_def
        MAX_LINES_def)

end
